theory Spec2Isabelle
  imports Main
begin

section \<open>Data model\<close>

text \<open>
  The script \<^verbatim>\<open>src/main.py\<close> runs a Docker container and ships its output to
  CloudWatch Logs. Everything it touches outside its own variables (the boto3 client,
  the Docker client, the clock, the logger, \<^verbatim>\<open>time.sleep\<close>) is an effect. The
  effects are modelled by a record \<open>env\<close> of replies, which says what each outside
  call answers, and a \<open>world\<close> that is passed through every function and collects
  the outside calls in the order they are made.
\<close>

text \<open>
  A \<^verbatim>\<open>bytes\<close> object is a list of 8-bit characters; a decoded Python \<^verbatim>\<open>str\<close>
  that the code inspects (a log message) is a list of Unicode code points. Names,
  tokens and identifiers, of which at most emptiness is inspected, stay \<open>string\<close>.
\<close>

type_synonym bytes = "char list"
type_synonym str = "nat list"

text \<open>
  The reading of \<^verbatim>\<open>datetime.now(timezone.utc).timestamp()\<close>. It is a float in
  Python; the code never computes with it, so a reading is kept as an exact number.
\<close>

type_synonym timestamp = int

text \<open>The dictionary \<^verbatim>\<open>{'timestamp': ..., 'message': ...}\<close> of lines 152-155.\<close>

record log_event =
  timestamp :: timestamp
  message :: str

text \<open>
  The exceptions the handlers of the script tell apart. \<open>ClientError\<close> carries
  \<^verbatim>\<open>e.response['Error']['Code']\<close>; botocore's \<^verbatim>\<open>ResourceAlreadyExistsException\<close> is
  the \<open>ClientError\<close> with that code. \<open>APIError\<close> is \<^verbatim>\<open>docker.errors.APIError\<close>, a
  subclass of \<^verbatim>\<open>DockerException\<close>; \<open>DockerException\<close> stands for the Docker
  exceptions that are not an \<open>APIError\<close>; \<open>OtherException\<close> for every other
  subclass of \<^verbatim>\<open>Exception\<close>, named by its class. Exceptions outside
  \<^verbatim>\<open>Exception\<close> (\<^verbatim>\<open>KeyboardInterrupt\<close>, \<^verbatim>\<open>SystemExit\<close>), which no handler of the
  script catches, are not modelled.
\<close>

datatype exn =
    ClientError string
  | APIError string
  | DockerException string
  | OtherException string

fun is_ClientError :: "exn \<Rightarrow> bool" where
  "is_ClientError (ClientError code) = True"
| "is_ClientError e = False"

fun is_APIError :: "exn \<Rightarrow> bool" where
  "is_APIError (APIError m) = True"
| "is_APIError e = False"

fun is_DockerException :: "exn \<Rightarrow> bool" where
  "is_DockerException (APIError m) = True"
| "is_DockerException (DockerException m) = True"
| "is_DockerException e = False"

text \<open>
  The keyword arguments of \<^verbatim>\<open>client.put_log_events(**kwargs)\<close>, lines 92-99. The key
  \<^verbatim>\<open>sequenceToken\<close> may be absent: \<open>None\<close>.
\<close>

record put_kwargs =
  logGroupName :: string
  logStreamName :: string
  logEvents :: "log_event list"
  sequenceToken :: "string option"

text \<open>
  What \<^verbatim>\<open>put_log_events\<close> answers: a response, of which the code reads the key
  \<^verbatim>\<open>nextSequenceToken\<close> (absent: \<open>None\<close>), or an exception.
\<close>

datatype put_outcome =
    PutReturns "string option"
  | PutRaises exn

datatype level = INFO | WARNING | ERROR

text \<open>The outside calls, each with its arguments and, where it can fail, its outcome.\<close>

datatype action =
    Boto3Client string string string "exn option"
  | CreateLogGroup string "exn option"
  | CreateLogStream string string "exn option"
  | PutLogEvents put_kwargs put_outcome
  | Sleep nat
  | DockerFromEnv "exn option"
  | ContainersRun string string "exn + string"
  | ContainerLogs string bool
  | ContainerStop string "exn option"
  | ContainerRemove string "exn option"
  | Log level string "exn option"

text \<open>
  The replies of the outside world. \<open>put_log_events_reply k\<close> answers the \<open>k\<close>-th call
  of \<^verbatim>\<open>put_log_events\<close> and \<open>now k\<close> is the \<open>k\<close>-th reading of the clock, counting
  from 0. \<open>logs_stream\<close> is the lines that \<^verbatim>\<open>container.logs(stream=True, ...)\<close>
  yields and how the iteration ends: exhausted (\<open>None\<close>) or raising. \<open>logs_drain\<close>
  is what the second call \<^verbatim>\<open>container.logs(stdout=True, stderr=True)\<close> returns:
  without \<^verbatim>\<open>stream=True\<close> the Docker SDK returns the whole output as one
  \<^verbatim>\<open>bytes\<close> object. \<open>stack_room\<close> is the number of calls of line 108 that can be
  nested, one inside the other, before the interpreter refuses the next one with
  \<^verbatim>\<open>RecursionError\<close>: it depends on \<^verbatim>\<open>sys.getrecursionlimit()\<close> (1000 unless
  changed, and the script does not change it) and on the frames in use, and is below
  1000 under the default limit.
\<close>

record env =
  boto3_client :: "exn option"
  create_log_group_reply :: "exn option"
  create_log_stream_reply :: "exn option"
  put_log_events_reply :: "nat \<Rightarrow> put_outcome"
  from_env_reply :: "exn option"
  run_reply :: "exn + string"
  logs_stream :: "bytes list \<times> exn option"
  logs_drain :: "exn + bytes"
  stop_reply :: "exn option"
  remove_reply :: "exn option"
  now :: "nat \<Rightarrow> timestamp"
  stack_room :: nat

record world =
  trace :: "action list"
  puts :: nat
  clock_reads :: nat

definition emit :: "world \<Rightarrow> action list \<Rightarrow> world" where
  "emit w as = w\<lparr>trace := trace w @ as\<rparr>"

text \<open>The command-line arguments, \<^verbatim>\<open>argparse.Namespace\<close>.\<close>

record args =
  docker_image :: string
  bash_command :: string
  aws_cloudwatch_group :: string
  aws_cloudwatch_stream :: string
  aws_access_key_id :: string
  aws_secret_access_key :: string
  aws_region :: string

section \<open>push_log_events\<close>

text \<open>
  Python's truth value of the sequence token: \<^verbatim>\<open>None\<close> and the empty string are
  false.
\<close>

definition truthy :: "string option \<Rightarrow> bool" where
  "truthy tok = (case tok of None \<Rightarrow> False | Some s \<Rightarrow> s \<noteq> [])"

text \<open>Lines 92-99: the dictionary \<^verbatim>\<open>kwargs\<close>.\<close>

definition kwargs_of ::
  "string \<Rightarrow> string \<Rightarrow> log_event list \<Rightarrow> string option \<Rightarrow> put_kwargs" where
  "kwargs_of log_group_name log_stream_name log_events sequence_token =
     \<lparr>logGroupName = log_group_name, logStreamName = log_stream_name,
      logEvents = log_events,
      sequenceToken = (if truthy sequence_token then sequence_token else None)\<rparr>"

text \<open>
  Lines 69-111. After a throttling failure the function calls itself (line 108), from
  inside the handler, so every retry is one more frame on the interpreter's stack.
  \<open>room\<close> is the number of such calls the stack still has room for: when it is used
  up, the call of line 108 raises \<^verbatim>\<open>RecursionError\<close>, which is no \<open>ClientError\<close>
  and leaves every activation. (Where exactly the interpreter runs out of frames, at
  line 108 or inside the call of line 102 or 106 one activation earlier, depends on the
  libraries; an exception that comes out of \<^verbatim>\<open>put_log_events\<close> itself is a reply
  \<open>PutRaises\<close>.) The result is the world after the call and either the exception that
  leaves the function or the returned token.
\<close>

fun push_log_events ::
  "env \<Rightarrow> nat \<Rightarrow> world \<Rightarrow> string \<Rightarrow> string \<Rightarrow> log_event list \<Rightarrow> string option
     \<Rightarrow> world \<times> (exn + string option)" where
  "push_log_events env room w log_group_name log_stream_name [] sequence_token =
     (w, Inr sequence_token)"
| "push_log_events env room w log_group_name log_stream_name (ev # evs) sequence_token =
     (let kwargs = kwargs_of log_group_name log_stream_name (ev # evs) sequence_token;
          reply = put_log_events_reply env (puts w);
          w1 = (emit w [PutLogEvents kwargs reply])\<lparr>puts := Suc (puts w)\<rparr>
      in case reply of
           PutReturns response \<Rightarrow>
             (case response of
                None \<Rightarrow> (w1, Inl (OtherException ''KeyError''))
              | Some next_token \<Rightarrow> (w1, Inr (Some next_token)))
         | PutRaises e \<Rightarrow>
             (case e of
                ClientError code \<Rightarrow>
                  if code = ''ThrottlingException''
                  then (let w2 = emit w1 [Log WARNING ''Throttling encountered, backing off...''
                                            None,
                                          Sleep 2]
                        in case room of
                             0 \<Rightarrow> (w2, Inl (OtherException ''RecursionError''))
                           | Suc room1 \<Rightarrow>
                               push_log_events env room1 w2 log_group_name log_stream_name
                                 (ev # evs) sequence_token)
                  else (emit w1 [Log ERROR ''Failed to push log events: '' (Some e)],
                        Inr sequence_token)
              | _ \<Rightarrow> (w1, Inl e)))"

section \<open>Decoding and stripping a line\<close>

text \<open>
  \<^verbatim>\<open>line.decode('utf-8')\<close>, lines 150, 172 and 174: the strict UTF-8 decoder. It
  raises \<^verbatim>\<open>UnicodeDecodeError\<close> (here \<open>None\<close>) on a byte that starts no sequence,
  on a missing or wrong continuation byte, on an overlong form, on a surrogate and on
  a code point above \<^verbatim>\<open>U+10FFFF\<close>.
\<close>

definition continuation :: "nat \<Rightarrow> bool" where
  "continuation b = (128 \<le> b \<and> b < 192)"

fun decode_points :: "nat list \<Rightarrow> str option" where
  "decode_points [] = Some []"
| "decode_points (b0 # bs) =
     (if b0 < 128 then map_option ((#) b0) (decode_points bs)
      else if 192 \<le> b0 \<and> b0 < 224 then
        (case bs of
           b1 # r \<Rightarrow>
             (let cp = (b0 - 192) * 64 + (b1 - 128)
              in if continuation b1 \<and> 128 \<le> cp
                 then map_option ((#) cp) (decode_points r) else None)
         | _ \<Rightarrow> None)
      else if 224 \<le> b0 \<and> b0 < 240 then
        (case bs of
           b1 # b2 # r \<Rightarrow>
             (let cp = (b0 - 224) * 4096 + (b1 - 128) * 64 + (b2 - 128)
              in if continuation b1 \<and> continuation b2 \<and> 2048 \<le> cp
                    \<and> \<not> (55296 \<le> cp \<and> cp < 57344)
                 then map_option ((#) cp) (decode_points r) else None)
         | _ \<Rightarrow> None)
      else if 240 \<le> b0 \<and> b0 < 248 then
        (case bs of
           b1 # b2 # b3 # r \<Rightarrow>
             (let cp = (b0 - 240) * 262144 + (b1 - 128) * 4096 + (b2 - 128) * 64 + (b3 - 128)
              in if continuation b1 \<and> continuation b2 \<and> continuation b3
                    \<and> 65536 \<le> cp \<and> cp < 1114112
                 then map_option ((#) cp) (decode_points r) else None)
         | _ \<Rightarrow> None)
      else None)"

definition decode_utf8 :: "bytes \<Rightarrow> str option" where
  "decode_utf8 line = decode_points (map of_char line)"

text \<open>
  \<^verbatim>\<open>str.strip()\<close> without argument removes the leading and trailing characters for
  which \<^verbatim>\<open>str.isspace\<close> holds: \<^verbatim>\<open>U+0009..U+000D\<close>, \<^verbatim>\<open>U+001C..U+0020\<close>,
  \<^verbatim>\<open>U+0085\<close>, \<^verbatim>\<open>U+00A0\<close>, \<^verbatim>\<open>U+1680\<close>, \<^verbatim>\<open>U+2000..U+200A\<close>, \<^verbatim>\<open>U+2028\<close>,
  \<^verbatim>\<open>U+2029\<close>, \<^verbatim>\<open>U+202F\<close>, \<^verbatim>\<open>U+205F\<close> and \<^verbatim>\<open>U+3000\<close>.
\<close>

definition isspace :: "nat \<Rightarrow> bool" where
  "isspace c =
     ((9 \<le> c \<and> c \<le> 13) \<or> (28 \<le> c \<and> c \<le> 32) \<or> c = 133 \<or> c = 160 \<or> c = 5760
      \<or> (8192 \<le> c \<and> c \<le> 8202) \<or> c = 8232 \<or> c = 8233 \<or> c = 8239 \<or> c = 8287
      \<or> c = 12288)"

definition strip :: "str \<Rightarrow> str" where
  "strip s = rev (dropWhile isspace (rev (dropWhile isspace s)))"

section \<open>main\<close>

text \<open>
  Lines 149-166, the loop over the streamed lines, with the two variables it updates:
  the buffer \<^verbatim>\<open>log_events\<close> and the held \<^verbatim>\<open>sequence_token\<close>. An exception
  (from decoding, or leaving \<open>push_log_events\<close>) ends the loop.
\<close>

fun stream_loop ::
  "env \<Rightarrow> args \<Rightarrow> world \<Rightarrow> bytes list \<Rightarrow> log_event list \<Rightarrow> string option
     \<Rightarrow> world \<times> (exn + log_event list \<times> string option)" where
  "stream_loop env a w [] log_events sequence_token =
     (w, Inr (log_events, sequence_token))"
| "stream_loop env a w (line # rest) log_events sequence_token =
     (case decode_utf8 line of
        None \<Rightarrow> (w, Inl (OtherException ''UnicodeDecodeError''))
      | Some text \<Rightarrow>
          (let message = strip text in
           if message \<noteq> [] then
             (let log_event = \<lparr>timestamp = now env (clock_reads w), message = message\<rparr>;
                  w1 = w\<lparr>clock_reads := Suc (clock_reads w)\<rparr>;
                  log_events1 = log_events @ [log_event]
              in if length log_events1 \<ge> 10 then
                   (case push_log_events env (stack_room env) w1 (aws_cloudwatch_group a)
                           (aws_cloudwatch_stream a) log_events1 sequence_token of
                      (w2, Inl e) \<Rightarrow> (w2, Inl e)
                    | (w2, Inr sequence_token1) \<Rightarrow>
                        stream_loop env a w2 rest [] sequence_token1)
                 else stream_loop env a w1 rest log_events1 sequence_token)
           else stream_loop env a w rest log_events sequence_token))"

text \<open>
  Lines 169-175, the list comprehension over the second read. The second read is one
  \<^verbatim>\<open>bytes\<close> object, and iterating over a \<^verbatim>\<open>bytes\<close> object yields its bytes as
  \<^verbatim>\<open>int\<close>s, not lines. The comprehension evaluates its condition
  \<^verbatim>\<open>line.decode('utf-8').strip()\<close> on the first of them, and an \<^verbatim>\<open>int\<close> has no
  attribute \<^verbatim>\<open>decode\<close>: \<^verbatim>\<open>AttributeError\<close>, before the clock is read or any
  dictionary is built. Only an empty read gives a list, the empty one.
\<close>

fun drain_events :: "bytes \<Rightarrow> exn + log_event list" where
  "drain_events [] = Inr []"
| "drain_events (byte # rest) = Inl (OtherException ''AttributeError'')"

text \<open>
  Lines 168-181, what follows the streaming loop: the second read, and the push of what
  is left. The value of this \<open>push_log_events\<close> is not assigned.
\<close>

definition drain_and_push ::
  "env \<Rightarrow> args \<Rightarrow> world \<Rightarrow> string \<Rightarrow> log_event list \<Rightarrow> string option
     \<Rightarrow> world \<times> (exn + unit)" where
  "drain_and_push env a w container log_events sequence_token =
     (let w2 = emit w [ContainerLogs container False] in
      case logs_drain env of
        Inl e \<Rightarrow> (w2, Inl e)
      | Inr content \<Rightarrow>
          (case drain_events content of
             Inl e \<Rightarrow> (w2, Inl e)
           | Inr later \<Rightarrow>
               (let log_events1 = log_events @ later in
                if log_events1 \<noteq> [] then
                  (case push_log_events env (stack_room env) w2 (aws_cloudwatch_group a)
                          (aws_cloudwatch_stream a) log_events1 sequence_token of
                     (w3, Inl e) \<Rightarrow> (w3, Inl e)
                   | (w3, Inr unused) \<Rightarrow> (w3, Inr ()))
                else (w2, Inr ()))))"

text \<open>
  Lines 148-181, the body of the inner \<^verbatim>\<open>try\<close>: the streaming pass, which ends when
  the stream is exhausted or raises, and then the second read and the last push.
\<close>

definition pump :: "env \<Rightarrow> args \<Rightarrow> world \<Rightarrow> string \<Rightarrow> world \<times> (exn + unit)" where
  "pump env a w container =
     (case stream_loop env a (emit w [ContainerLogs container True])
             (fst (logs_stream env)) [] None of
        (w1, Inl e) \<Rightarrow> (w1, Inl e)
      | (w1, Inr (log_events, sequence_token)) \<Rightarrow>
          (case snd (logs_stream env) of
             Some e \<Rightarrow> (w1, Inl e)
           | None \<Rightarrow> drain_and_push env a w1 container log_events sequence_token))"

text \<open>
  Lines 147-189: the inner \<^verbatim>\<open>try\<close> with its handler for \<^verbatim>\<open>docker.errors.APIError\<close>
  and its \<^verbatim>\<open>finally\<close>. An exception raised by \<^verbatim>\<open>container.stop()\<close> or
  \<^verbatim>\<open>container.remove()\<close> leaves the \<^verbatim>\<open>finally\<close> block at once and replaces the
  exception that was on its way, if there was one.
\<close>

definition pump_and_cleanup ::
  "env \<Rightarrow> args \<Rightarrow> world \<Rightarrow> string \<Rightarrow> world \<times> (exn + unit)" where
  "pump_and_cleanup env a w container =
     (case pump env a w container of
        (w1, r) \<Rightarrow>
          (let (w2, r2) =
                 (case r of
                    Inl e \<Rightarrow>
                      if is_APIError e
                      then (emit w1 [Log ERROR ''Docker API error: '' (Some e)], Inr ())
                      else (w1, Inl e)
                  | Inr u \<Rightarrow> (w1, Inr ()));
               w3 = emit w2 [ContainerStop container (stop_reply env)]
           in case stop_reply env of
                Some e \<Rightarrow> (w3, Inl e)
              | None \<Rightarrow>
                  (let w4 = emit w3 [ContainerRemove container (remove_reply env)]
                   in case remove_reply env of
                        Some e \<Rightarrow> (w4, Inl e)
                      | None \<Rightarrow> (w4, r2))))"

text \<open>Lines 38-50.\<close>

definition create_log_group :: "env \<Rightarrow> world \<Rightarrow> string \<Rightarrow> world \<times> (exn + unit)" where
  "create_log_group env w log_group_name =
     (let w1 = emit w [CreateLogGroup log_group_name (create_log_group_reply env)] in
      case create_log_group_reply env of
        None \<Rightarrow> (emit w1 [Log INFO (''Created log group '' @ log_group_name) None], Inr ())
      | Some e \<Rightarrow>
          if e = ClientError ''ResourceAlreadyExistsException''
          then (emit w1 [Log INFO (''Log group '' @ log_group_name @ '' already exists'') None],
                Inr ())
          else (w1, Inl e))"

text \<open>Lines 53-66.\<close>

definition create_log_stream ::
  "env \<Rightarrow> world \<Rightarrow> string \<Rightarrow> string \<Rightarrow> world \<times> (exn + unit)" where
  "create_log_stream env w log_group_name log_stream_name =
     (let w1 = emit w [CreateLogStream log_group_name log_stream_name
                         (create_log_stream_reply env)] in
      case create_log_stream_reply env of
        None \<Rightarrow> (emit w1 [Log INFO (''Created log stream '' @ log_stream_name) None], Inr ())
      | Some e \<Rightarrow>
          if e = ClientError ''ResourceAlreadyExistsException''
          then (emit w1 [Log INFO (''Log stream '' @ log_stream_name @ '' already exists'') None],
                Inr ())
          else (w1, Inl e))"

text \<open>Lines 131-189, the body of the outer \<^verbatim>\<open>try\<close>.\<close>

definition guarded :: "env \<Rightarrow> args \<Rightarrow> world \<Rightarrow> world \<times> (exn + unit)" where
  "guarded env a w =
     (case create_log_group env w (aws_cloudwatch_group a) of
        (w1, Inl e) \<Rightarrow> (w1, Inl e)
      | (w1, Inr u) \<Rightarrow>
          (case create_log_stream env w1 (aws_cloudwatch_group a) (aws_cloudwatch_stream a) of
             (w2, Inl e) \<Rightarrow> (w2, Inl e)
           | (w2, Inr u) \<Rightarrow>
               (let w3 = emit w2 [DockerFromEnv (from_env_reply env)] in
                case from_env_reply env of
                  Some e \<Rightarrow> (w3, Inl e)
                | None \<Rightarrow>
                    (let w4 = emit w3 [ContainersRun (docker_image a)
                                         (''/bin/bash -c '' @ [CHR 0x27] @ bash_command a
                                            @ [CHR 0x27])
                                         (run_reply env)]
                     in case run_reply env of
                          Inl e \<Rightarrow> (w4, Inl e)
                        | Inr container \<Rightarrow> pump_and_cleanup env a w4 container))))"

text \<open>The three handlers of lines 191-196, tried in this order.\<close>

definition handler_text :: "exn \<Rightarrow> string" where
  "handler_text e =
     (if is_DockerException e then ''Docker error: ''
      else if is_ClientError e then ''AWS error: ''
      else ''Unexpected error: '')"

text \<open>
  Lines 114-196. \<^verbatim>\<open>boto3.client\<close> is called before the outer \<^verbatim>\<open>try\<close>: an
  exception it raises leaves \<open>main\<close>. The result \<open>Inr ()\<close> says that \<open>main\<close>
  returns, \<open>Inl e\<close> that \<open>e\<close> leaves it. The stream of a container that never stops
  has no end; here the streamed lines are a list, so that every run ends.
\<close>

definition main :: "env \<Rightarrow> args \<Rightarrow> world \<times> (exn + unit)" where
  "main env a =
     (let w = \<lparr>trace = [Boto3Client (aws_access_key_id a) (aws_secret_access_key a)
                           (aws_region a) (boto3_client env)],
               puts = 0, clock_reads = 0\<rparr>
      in case boto3_client env of
           Some e \<Rightarrow> (w, Inl e)
         | None \<Rightarrow>
             (case guarded env a w of
                (w1, Inl e) \<Rightarrow> (emit w1 [Log ERROR (handler_text e) (Some e)], Inr ())
              | (w1, Inr u) \<Rightarrow> (w1, Inr ())))"

section \<open>Reading a run\<close>

text \<open>The reply of a throttled call, and what one throttled call adds to the trace.\<close>

definition throttled :: put_outcome where
  "throttled = PutRaises (ClientError ''ThrottlingException'')"

definition backoff :: "put_kwargs \<Rightarrow> action list" where
  "backoff kwargs =
     [PutLogEvents kwargs throttled,
      Log WARNING ''Throttling encountered, backing off...'' None, Sleep 2]"

text \<open>
  What follows a reply that is not a throttling failure: the log lines written and
  how \<open>push_log_events\<close> ends, given the cursor it was called with.
\<close>

fun settle :: "put_outcome \<Rightarrow> string option \<Rightarrow> action list \<times> (exn + string option)" where
  "settle (PutReturns None) sequence_token = ([], Inl (OtherException ''KeyError''))"
| "settle (PutReturns (Some next_token)) sequence_token = ([], Inr (Some next_token))"
| "settle (PutRaises (ClientError code)) sequence_token =
     ([Log ERROR ''Failed to push log events: '' (Some (ClientError code))], Inr sequence_token)"
| "settle (PutRaises e) sequence_token = ([], Inl e)"

text \<open>The calls of \<^verbatim>\<open>put_log_events\<close> in a trace, in order, each with its reply.\<close>

fun put_calls :: "action list \<Rightarrow> (put_kwargs \<times> put_outcome) list" where
  "put_calls [] = []"
| "put_calls (PutLogEvents kwargs reply # as) = (kwargs, reply) # put_calls as"
| "put_calls (other # as) = put_calls as"

text \<open>
  The cursor \<open>main\<close> holds after a call of \<^verbatim>\<open>put_log_events\<close>, given the cursor
  it held before: the token of the response after a success, the same cursor after a
  \<open>ClientError\<close> (the call is repeated, or the batch is abandoned). After any other
  outcome no call follows.
\<close>

fun cursor_after :: "string option \<Rightarrow> put_outcome \<Rightarrow> string option" where
  "cursor_after c (PutReturns (Some next_token)) = Some next_token"
| "cursor_after c reply = c"

text \<open>
  A list of calls is threaded from the cursor \<open>c\<close>: each call is made with the
  cursor held at that moment (sent as \<^verbatim>\<open>sequenceToken\<close> when it is true in
  Python's sense, left out otherwise), and the cursor held for the next call is the one
  this call leaves.
\<close>

fun threaded :: "string option \<Rightarrow> (put_kwargs \<times> put_outcome) list \<Rightarrow> bool" where
  "threaded c [] = True"
| "threaded c ((kwargs, reply) # calls) =
     (sequenceToken kwargs = (if truthy c then c else None)
      \<and> threaded (cursor_after c reply) calls)"

text \<open>The cursor held after a list of calls.\<close>

fun held :: "string option \<Rightarrow> (put_kwargs \<times> put_outcome) list \<Rightarrow> string option" where
  "held c [] = c"
| "held c ((kwargs, reply) # calls) = held (cursor_after c reply) calls"

text \<open>
  The batches handed to the sink, in order: one for each call whose reply is not a
  throttling failure (a throttled call is repeated with the same batch).
\<close>

definition submitted :: "action list \<Rightarrow> log_event list list" where
  "submitted as = map (logEvents \<circ> fst) (filter (\<lambda>call. snd call \<noteq> throttled) (put_calls as))"

text \<open>The actions of \<open>push_log_events\<close>.\<close>

fun sink_action :: "action \<Rightarrow> bool" where
  "sink_action (PutLogEvents kwargs reply) = True"
| "sink_action (Log lvl msg e) = True"
| "sink_action (Sleep n) = True"
| "sink_action a = False"

text \<open>
  The messages of the lines that the streaming loop accepts: decoded, stripped, and not
  empty.
\<close>

fun messages_of :: "bytes list \<Rightarrow> str list" where
  "messages_of [] = []"
| "messages_of (line # rest) =
     (case decode_utf8 line of
        None \<Rightarrow> messages_of rest
      | Some text \<Rightarrow> if strip text \<noteq> [] then strip text # messages_of rest
                     else messages_of rest)"

text \<open>The calls of \<^verbatim>\<open>container.stop()\<close> and \<^verbatim>\<open>container.remove()\<close> in a trace.\<close>

fun is_cleanup :: "action \<Rightarrow> bool" where
  "is_cleanup (ContainerStop container reply) = True"
| "is_cleanup (ContainerRemove container reply) = True"
| "is_cleanup a = False"

definition cleanup_calls :: "action list \<Rightarrow> action list" where
  "cleanup_calls as = filter is_cleanup as"

text \<open>The container handles that \<^verbatim>\<open>client.containers.run\<close> returned.\<close>

fun acquired :: "action list \<Rightarrow> string list" where
  "acquired [] = []"
| "acquired (ContainersRun img cmd (Inr container) # as) = container # acquired as"
| "acquired (a # as) = acquired as"

text \<open>Actions among which no container is acquired, cleaned up, or written to the sink.\<close>

definition quiet :: "action list \<Rightarrow> bool" where
  "quiet as = (cleanup_calls as = [] \<and> acquired as = [] \<and> put_calls as = [])"

text \<open>
  A reply of the sink after which \<open>push_log_events\<close> raises: a response without the
  key \<^verbatim>\<open>nextSequenceToken\<close>, or an exception that is not a \<open>ClientError\<close>.
\<close>

fun fatal :: "put_outcome \<Rightarrow> bool" where
  "fatal (PutReturns None) = True"
| "fatal (PutReturns (Some next_token)) = False"
| "fatal (PutRaises e) = (\<not> is_ClientError e)"

text \<open>What a call of the sink shows of itself when the timestamps are left aside.\<close>

definition summary ::
  "put_kwargs \<times> put_outcome \<Rightarrow> string \<times> string \<times> str list \<times> string option \<times> put_outcome" where
  "summary call =
     (logGroupName (fst call), logStreamName (fst call), map message (logEvents (fst call)),
      sequenceToken (fst call), snd call)"

text \<open>
  A line that decodes to nothing but white space (or to nothing at all).
\<close>

definition blank :: "bytes \<Rightarrow> bool" where
  "blank line = (case decode_utf8 line of None \<Rightarrow> False | Some text \<Rightarrow> list_all isspace text)"

text \<open>
  The exceptions that the log lines of a trace report.
\<close>

fun reported :: "action list \<Rightarrow> exn list" where
  "reported [] = []"
| "reported (Log lvl msg (Some e) # as) = e # reported as"
| "reported (a # as) = reported as"

section \<open>Concrete runs\<close>

text \<open>
  The runs on which the theorems below are instantiated. The arguments of every run,
  and the world before anything has happened.
\<close>

definition args0 :: args where
  "args0 = \<lparr>docker_image = ''python'', bash_command = ''pip list'',
            aws_cloudwatch_group = ''group'', aws_cloudwatch_stream = ''stream'',
            aws_access_key_id = ''id'', aws_secret_access_key = ''key'',
            aws_region = ''eu-west-1''\<rparr>"

definition world0 :: world where
  "world0 = \<lparr>trace = [], puts = 0, clock_reads = 0\<rparr>"

text \<open>
  An outside world in which every call succeeds: the log group is created, the log
  stream exists already, the container \<open>c1\<close> prints nothing, the \<open>k\<close>-th call of
  \<^verbatim>\<open>put_log_events\<close> returns the token \<open>t\<close> followed by \<open>k\<close> plus signs, and the
  stack has room for 987 nested retries, a value below the default recursion limit. The
  other worlds differ from it in the replies named.
\<close>

definition env0 :: env where
  "env0 = \<lparr>boto3_client = None, create_log_group_reply = None,
           create_log_stream_reply = Some (ClientError ''ResourceAlreadyExistsException''),
           put_log_events_reply = (\<lambda>k. PutReturns (Some (''t'' @ replicate k (CHR ''+'')))),
           from_env_reply = None, run_reply = Inr ''c1'',
           logs_stream = ([], None), logs_drain = Inr [],
           stop_reply = None, remove_reply = None, now = int, stack_room = 987\<rparr>"

definition event0 :: log_event where
  "event0 = \<lparr>timestamp = 0, message = [104, 105]\<rparr>"

text \<open>
  The sink throttles the first two calls and accepts the third.
\<close>

definition env_throttled :: env where
  "env_throttled =
     env0\<lparr>put_log_events_reply :=
            (\<lambda>k. if k < 2 then throttled else PutReturns (Some ''next''))\<rparr>"

text \<open>
  The sink throttles every call, and the stack has room for one retry.
\<close>

definition env_no_room :: env where
  "env_no_room =
     env0\<lparr>put_log_events_reply := (\<lambda>k. PutRaises (ClientError ''ThrottlingException'')),
          stack_room := 1\<rparr>"

text \<open>
  The sink throttles the first thousand calls and accepts the next one.
\<close>

definition env_throttled_1000 :: env where
  "env_throttled_1000 =
     env0\<lparr>put_log_events_reply :=
            (\<lambda>k. if k < 1000 then PutRaises (ClientError ''ThrottlingException'')
                 else PutReturns (Some ''next''))\<rparr>"

text \<open>
  The sink returns the empty string as next token.
\<close>

definition env_empty_token :: env where
  "env_empty_token = env0\<lparr>put_log_events_reply := (\<lambda>k. PutReturns (Some []))\<rparr>"

text \<open>
  The container prints 30 lines. The stream yields them one by one, each with its
  newline, and the second read returns the whole output, as the Docker daemon does for
  a call without \<^verbatim>\<open>since\<close> or \<^verbatim>\<open>tail\<close>.
\<close>

definition env30 :: env where
  "env30 = env0\<lparr>logs_stream := (replicate 30 (''line'' @ [CHR 0x0A]), None),
                logs_drain := Inr (concat (replicate 30 (''line'' @ [CHR 0x0A])))\<rparr>"

text \<open>
  As \<open>env30\<close>, with a sink that returns the empty string as next token every time.
\<close>

definition env30_empty_token :: env where
  "env30_empty_token = env30\<lparr>put_log_events_reply := (\<lambda>k. PutReturns (Some []))\<rparr>"

text \<open>
  As \<open>env30\<close>, with a sink that accepts the first batch, rejects the second with an
  error that is not a throttling failure, and accepts the third.
\<close>

definition env_abandon30 :: env where
  "env_abandon30 =
     env30\<lparr>put_log_events_reply :=
             (\<lambda>k. if k = 0 then PutReturns (Some ''t1'')
                  else if k = 1 then PutRaises (ClientError ''InvalidParameterException'')
                  else PutReturns (Some ''t3''))\<rparr>"

text \<open>
  As \<open>env30\<close>, with a sink that accepts the first batch and cannot be reached for the
  second: botocore raises \<^verbatim>\<open>EndpointConnectionError\<close>, which is no \<open>ClientError\<close>.
\<close>

definition env_connection_lost :: env where
  "env_connection_lost =
     env30\<lparr>put_log_events_reply :=
             (\<lambda>k. if k = 0 then PutReturns (Some ''t1'')
                  else if k = 1 then PutRaises (OtherException ''EndpointConnectionError'')
                  else PutReturns (Some ''t3''))\<rparr>"

text \<open>
  The container prints 25 lines; the stream yields them, and the second read returns
  the whole output.
\<close>

definition env25_log :: env where
  "env25_log = env0\<lparr>logs_stream := (replicate 25 (''line'' @ [CHR 0x0A]), None),
                    logs_drain := Inr (concat (replicate 25 (''line'' @ [CHR 0x0A])))\<rparr>"

text \<open>
  The container prints the line \<open>a\<close>, which the stream yields, and then the line
  \<open>b\<close>, which the stream does not deliver before it ends. The second read returns the
  whole output.
\<close>

definition env_buffered :: env where
  "env_buffered = env0\<lparr>logs_stream := ([[CHR ''a'', CHR 0x0A]], None),
                       logs_drain := Inr [CHR ''a'', CHR 0x0A, CHR ''b'', CHR 0x0A]\<rparr>"

text \<open>
  \<^verbatim>\<open>container.stop()\<close> raises.
\<close>

definition env_stop_fails :: env where
  "env_stop_fails = env0\<lparr>stop_reply := Some (APIError ''stop'')\<rparr>"

text \<open>
  \<^verbatim>\<open>client.containers.run\<close> raises: no container handle is acquired.
\<close>

definition env_no_container :: env where
  "env_no_container = env0\<lparr>run_reply := Inl (DockerException ''ImageNotFound'')\<rparr>"

text \<open>
  The container prints ten lines, the call of the sink for them raises an exception that
  is not a \<open>ClientError\<close>, and then \<^verbatim>\<open>container.stop()\<close> raises as well.
\<close>

definition env_double_fault :: env where
  "env_double_fault =
     env0\<lparr>logs_stream := (replicate 10 (''line'' @ [CHR 0x0A]), None),
          logs_drain := Inr (concat (replicate 10 (''line'' @ [CHR 0x0A]))),
          put_log_events_reply := (\<lambda>k. PutRaises (OtherException ''EndpointConnectionError'')),
          stop_reply := Some (APIError ''stop'')\<rparr>"

text \<open>
  The log stream raises an \<open>APIError\<close> after its first line.
\<close>

definition env_stream_breaks :: env where
  "env_stream_breaks = env0\<lparr>logs_stream := ([''line''], Some (APIError ''read''))\<rparr>"

section \<open>Properties of push_log_events\<close>

lemma put_calls_append: "put_calls (xs @ ys) = put_calls xs @ put_calls ys"
  by (induction xs rule: put_calls.induct) simp_all

text \<open>The keyword arguments, written out.\<close>

lemma kwargs_of_explicit:
  "kwargs_of g s log_events tok =
     \<lparr>logGroupName = g, logStreamName = s, logEvents = log_events,
      sequenceToken = (if tok = None \<or> tok = Some [] then None else tok)\<rparr>"
  by (cases tok) (simp_all add: kwargs_of_def truthy_def)

text \<open>
  One call of \<^verbatim>\<open>put_log_events\<close>: throttled with room for a retry, throttled with
  no room left, or settled.
\<close>

lemma push_throttled_step:
  assumes "put_log_events_reply env (puts w) = throttled"
  shows "push_log_events env (Suc room) w g s (ev # evs) tok =
           push_log_events env room
             (w\<lparr>trace := trace w @ backoff (kwargs_of g s (ev # evs) tok),
                puts := Suc (puts w)\<rparr>) g s (ev # evs) tok"
  using assms by (cases w) (simp add: throttled_def backoff_def emit_def)

lemma push_throttled_last:
  assumes "put_log_events_reply env (puts w) = throttled"
  shows "push_log_events env 0 w g s (ev # evs) tok =
           (w\<lparr>trace := trace w @ backoff (kwargs_of g s (ev # evs) tok),
              puts := Suc (puts w)\<rparr>, Inl (OtherException ''RecursionError''))"
  using assms by (cases w) (simp add: throttled_def backoff_def emit_def)

lemma push_settled_step:
  assumes "put_log_events_reply env (puts w) \<noteq> throttled"
  shows "push_log_events env room w g s (ev # evs) tok =
           (w\<lparr>trace := trace w @ PutLogEvents (kwargs_of g s (ev # evs) tok)
                                  (put_log_events_reply env (puts w))
                        # fst (settle (put_log_events_reply env (puts w)) tok),
              puts := Suc (puts w)\<rparr>,
            snd (settle (put_log_events_reply env (puts w)) tok))"
proof (cases "put_log_events_reply env (puts w)")
  case (PutReturns response)
  then show ?thesis by (cases response; cases w) (simp_all add: emit_def)
next
  case (PutRaises e)
  with assms show ?thesis by (cases e; cases w) (simp_all add: emit_def throttled_def)
qed

lemma push_settled:
  assumes "log_events \<noteq> []"
      and "put_log_events_reply env (puts w) \<noteq> throttled"
  shows "push_log_events env room w g s log_events tok =
           (w\<lparr>trace := trace w @ PutLogEvents (kwargs_of g s log_events tok)
                                  (put_log_events_reply env (puts w))
                        # fst (settle (put_log_events_reply env (puts w)) tok),
              puts := Suc (puts w)\<rparr>,
            snd (settle (put_log_events_reply env (puts w)) tok))"
proof -
  from assms(1) obtain ev evs where "log_events = ev # evs" by (cases log_events) auto
  with push_settled_step [OF assms(2)] show ?thesis by simp
qed

text \<open>
  Every call of \<open>push_log_events\<close> with a batch that is not empty has one of two
  shapes. Either some number \<open>K\<close> of throttled calls, not above the room, each followed
  by the warning and the sleep, and then one call whose reply is not a throttling
  failure and settles the batch. Or one throttled call more than there is room for
  retries, each followed by the warning and the sleep, and then \<^verbatim>\<open>RecursionError\<close>.
\<close>

lemma push_shape:
  assumes "push_log_events env room w g s (ev # evs) tok = (w', r)"
  shows "(\<exists>K. K \<le> room
           \<and> (\<forall>i<K. put_log_events_reply env (puts w + i) = throttled)
           \<and> put_log_events_reply env (puts w + K) \<noteq> throttled
           \<and> w' = w\<lparr>trace := trace w @ concat (replicate K (backoff (kwargs_of g s (ev # evs) tok)))
                            @ PutLogEvents (kwargs_of g s (ev # evs) tok)
                                (put_log_events_reply env (puts w + K))
                            # fst (settle (put_log_events_reply env (puts w + K)) tok),
                   puts := puts w + K + 1\<rparr>
           \<and> r = snd (settle (put_log_events_reply env (puts w + K)) tok))
         \<or> ((\<forall>i\<le>room. put_log_events_reply env (puts w + i) = throttled)
           \<and> w' = w\<lparr>trace := trace w
                         @ concat (replicate (Suc room) (backoff (kwargs_of g s (ev # evs) tok))),
                   puts := puts w + Suc room\<rparr>
           \<and> r = Inl (OtherException ''RecursionError''))"
  using assms
proof (induction room arbitrary: w)
  case 0
  show ?case
  proof (cases "put_log_events_reply env (puts w) = throttled")
    case False
    from 0 False have "\<exists>K. K \<le> 0
           \<and> (\<forall>i<K. put_log_events_reply env (puts w + i) = throttled)
           \<and> put_log_events_reply env (puts w + K) \<noteq> throttled
           \<and> w' = w\<lparr>trace := trace w @ concat (replicate K (backoff (kwargs_of g s (ev # evs) tok)))
                            @ PutLogEvents (kwargs_of g s (ev # evs) tok)
                                (put_log_events_reply env (puts w + K))
                            # fst (settle (put_log_events_reply env (puts w + K)) tok),
                   puts := puts w + K + 1\<rparr>
           \<and> r = snd (settle (put_log_events_reply env (puts w + K)) tok)"
      unfolding push_settled_step [OF False]
      by (intro exI [of _ 0]) auto
    then show ?thesis by (rule disjI1)
  next
    case True
    from 0 True show ?thesis
      unfolding push_throttled_last [OF True] by auto
  qed
next
  case (Suc room)
  show ?case
  proof (cases "put_log_events_reply env (puts w) = throttled")
    case False
    from Suc.prems False have "\<exists>K. K \<le> Suc room
           \<and> (\<forall>i<K. put_log_events_reply env (puts w + i) = throttled)
           \<and> put_log_events_reply env (puts w + K) \<noteq> throttled
           \<and> w' = w\<lparr>trace := trace w @ concat (replicate K (backoff (kwargs_of g s (ev # evs) tok)))
                            @ PutLogEvents (kwargs_of g s (ev # evs) tok)
                                (put_log_events_reply env (puts w + K))
                            # fst (settle (put_log_events_reply env (puts w + K)) tok),
                   puts := puts w + K + 1\<rparr>
           \<and> r = snd (settle (put_log_events_reply env (puts w + K)) tok)"
      unfolding push_settled_step [OF False]
      by (intro exI [of _ 0]) auto
    then show ?thesis by (rule disjI1)
  next
    case True
    let ?kw = "kwargs_of g s (ev # evs) tok"
    let ?w = "w\<lparr>trace := trace w @ backoff ?kw, puts := Suc (puts w)\<rparr>"
    from Suc.prems have "push_log_events env room ?w g s (ev # evs) tok = (w', r)"
      unfolding push_throttled_step [OF True] .
    from Suc.IH [OF this] consider
      (settled) K where "K \<le> room"
        "\<forall>i<K. put_log_events_reply env (Suc (puts w) + i) = throttled"
        "put_log_events_reply env (Suc (puts w) + K) \<noteq> throttled"
        "w' = w\<lparr>trace := trace w @ backoff ?kw @ concat (replicate K (backoff ?kw))
                   @ PutLogEvents ?kw (put_log_events_reply env (Suc (puts w) + K))
                   # fst (settle (put_log_events_reply env (Suc (puts w) + K)) tok),
                puts := Suc (puts w) + K + 1\<rparr>"
        "r = snd (settle (put_log_events_reply env (Suc (puts w) + K)) tok)"
    | (exhausted) "\<forall>i\<le>room. put_log_events_reply env (Suc (puts w) + i) = throttled"
        "w' = w\<lparr>trace := trace w @ backoff ?kw @ concat (replicate (Suc room) (backoff ?kw)),
                puts := Suc (puts w) + Suc room\<rparr>"
        "r = Inl (OtherException ''RecursionError'')"
      by auto
    then show ?thesis
    proof cases
      case settled
      have all: "\<forall>i<Suc K. put_log_events_reply env (puts w + i) = throttled"
      proof (intro allI impI)
        fix i assume "i < Suc K"
        show "put_log_events_reply env (puts w + i) = throttled"
        proof (cases i)
          case 0
          with True show ?thesis by simp
        next
          case (Suc j)
          with \<open>i < Suc K\<close> settled(2) show ?thesis by simp
        qed
      qed
      have "\<exists>K. K \<le> Suc room
           \<and> (\<forall>i<K. put_log_events_reply env (puts w + i) = throttled)
           \<and> put_log_events_reply env (puts w + K) \<noteq> throttled
           \<and> w' = w\<lparr>trace := trace w @ concat (replicate K (backoff ?kw))
                            @ PutLogEvents ?kw (put_log_events_reply env (puts w + K))
                            # fst (settle (put_log_events_reply env (puts w + K)) tok),
                   puts := puts w + K + 1\<rparr>
           \<and> r = snd (settle (put_log_events_reply env (puts w + K)) tok)"
        using settled all by (intro exI [of _ "Suc K"]) simp
      then show ?thesis by (rule disjI1)
    next
      case exhausted
      have all: "\<forall>i\<le>Suc room. put_log_events_reply env (puts w + i) = throttled"
      proof (intro allI impI)
        fix i assume "i \<le> Suc room"
        show "put_log_events_reply env (puts w + i) = throttled"
        proof (cases i)
          case 0
          with True show ?thesis by simp
        next
          case (Suc j)
          with \<open>i \<le> Suc room\<close> exhausted(1) show ?thesis by simp
        qed
      qed
      with exhausted show ?thesis by simp
    qed
  qed
qed

lemma push_cases:
  assumes "push_log_events env room w g s (ev # evs) tok = (w', r)"
  obtains
    (settled) K where "K \<le> room"
      "\<forall>i<K. put_log_events_reply env (puts w + i) = throttled"
      "put_log_events_reply env (puts w + K) \<noteq> throttled"
      "w' = w\<lparr>trace := trace w @ concat (replicate K (backoff (kwargs_of g s (ev # evs) tok)))
                       @ PutLogEvents (kwargs_of g s (ev # evs) tok)
                           (put_log_events_reply env (puts w + K))
                       # fst (settle (put_log_events_reply env (puts w + K)) tok),
              puts := puts w + K + 1\<rparr>"
      "r = snd (settle (put_log_events_reply env (puts w + K)) tok)"
  | (exhausted) "\<forall>i\<le>room. put_log_events_reply env (puts w + i) = throttled"
      "w' = w\<lparr>trace := trace w
                 @ concat (replicate (Suc room) (backoff (kwargs_of g s (ev # evs) tok))),
              puts := puts w + Suc room\<rparr>"
      "r = Inl (OtherException ''RecursionError'')"
  using push_shape [OF assms] by blast

text \<open>\<open>K\<close> throttling failures, then a success: there must be room for \<open>K\<close> retries.\<close>

lemma push_throttled_K:
  assumes "\<forall>i<K. put_log_events_reply env (puts w + i) = throttled"
      and "put_log_events_reply env (puts w + K) = PutReturns (Some next_token)"
      and "K \<le> room"
  shows "push_log_events env room w g s (ev # evs) tok =
           (w\<lparr>trace := trace w @ concat (replicate K (backoff (kwargs_of g s (ev # evs) tok)))
                          @ [PutLogEvents (kwargs_of g s (ev # evs) tok)
                               (PutReturns (Some next_token))],
                  puts := puts w + K + 1\<rparr>,
            Inr (Some next_token))"
  using assms
proof (induction K arbitrary: w room)
  case 0
  then have "put_log_events_reply env (puts w) \<noteq> throttled" by (simp add: throttled_def)
  from push_settled_step [OF this] 0 show ?case by simp
next
  case (Suc K)
  then obtain f where f: "room = Suc f" by (cases room) auto
  let ?w = "w\<lparr>trace := trace w @ backoff (kwargs_of g s (ev # evs) tok),
               puts := Suc (puts w)\<rparr>"
  from Suc.prems(1) have h0: "put_log_events_reply env (puts w) = throttled"
    by (metis add.right_neutral zero_less_Suc)
  have h1: "\<forall>i<K. put_log_events_reply env (puts ?w + i) = throttled"
  proof (intro allI impI)
    fix i assume "i < K"
    then have "put_log_events_reply env (puts w + Suc i) = throttled"
      using Suc.prems(1) [rule_format, of "Suc i"] by simp
    then show "put_log_events_reply env (puts ?w + i) = throttled" by simp
  qed
  have h2: "put_log_events_reply env (puts ?w + K) = PutReturns (Some next_token)"
    using Suc.prems(2) by simp
  have h3: "K \<le> f" using Suc.prems(3) f by simp
  show ?case
    unfolding f push_throttled_step [OF h0] Suc.IH [OF h1 h2 h3]
    by simp
qed

text \<open>
  More throttling failures than there is room for retries: the call is made once more
  than the room says, each time followed by the warning and the sleep, and then
  \<^verbatim>\<open>RecursionError\<close> leaves \<open>push_log_events\<close>. Whatever the sink would have
  answered to a later call is never asked for.
\<close>

lemma push_throttled_out:
  assumes "\<forall>i\<le>room. put_log_events_reply env (puts w + i) = throttled"
  shows "push_log_events env room w g s (ev # evs) tok =
           (w\<lparr>trace := trace w
                 @ concat (replicate (Suc room) (backoff (kwargs_of g s (ev # evs) tok))),
              puts := puts w + Suc room\<rparr>,
            Inl (OtherException ''RecursionError''))"
  using assms
proof (induction room arbitrary: w)
  case 0
  then have "put_log_events_reply env (puts w) = throttled" by simp
  from push_throttled_last [OF this] show ?case by simp
next
  case (Suc room)
  let ?w = "w\<lparr>trace := trace w @ backoff (kwargs_of g s (ev # evs) tok),
               puts := Suc (puts w)\<rparr>"
  from Suc.prems have h0: "put_log_events_reply env (puts w) = throttled"
    by (metis add.right_neutral le0)
  have h1: "\<forall>i\<le>room. put_log_events_reply env (puts ?w + i) = throttled"
  proof (intro allI impI)
    fix i assume "i \<le> room"
    then have "put_log_events_reply env (puts w + Suc i) = throttled"
      using Suc.prems [rule_format, of "Suc i"] by simp
    then show "put_log_events_reply env (puts ?w + i) = throttled" by simp
  qed
  show ?case
    unfolding push_throttled_step [OF h0] Suc.IH [OF h1]
    by simp
qed

lemma put_calls_backoffs:
  "put_calls (concat (replicate K (backoff kwargs))) = replicate K (kwargs, throttled)"
  by (induction K) (simp_all add: backoff_def)

lemma put_calls_settle: "put_calls (fst (settle reply tok)) = []"
  by (cases "(reply, tok)" rule: settle.cases) simp_all

text \<open>
  The calls of the sink that one call of \<open>push_log_events\<close> makes: all with the same
  keyword arguments, all throttled but possibly the last.
\<close>

lemma push_put_calls:
  assumes "push_log_events env room w g s (ev # evs) tok = (w', r)"
  shows "\<exists>K final. put_calls (trace w') =
             put_calls (trace w) @ replicate K (kwargs_of g s (ev # evs) tok, throttled) @ final
           \<and> puts w' = puts w + K + length final
           \<and> clock_reads w' = clock_reads w
           \<and> ((\<exists>reply. final = [(kwargs_of g s (ev # evs) tok, reply)] \<and> reply \<noteq> throttled
                  \<and> r = snd (settle reply tok))
               \<or> (final = [] \<and> K = Suc room \<and> r = Inl (OtherException ''RecursionError'')))"
  using assms
proof (cases rule: push_cases)
  case (settled K)
  show ?thesis
    by (rule exI [of _ K],
        rule exI [of _ "[(kwargs_of g s (ev # evs) tok, put_log_events_reply env (puts w + K))]"])
       (simp add: settled put_calls_append put_calls_backoffs put_calls_settle)
next
  case exhausted
  show ?thesis
    by (rule exI [of _ "Suc room"], rule exI [of _ "[]"])
       (simp add: exhausted put_calls_append put_calls_backoffs del: replicate.simps)
qed

lemma threaded_append:
  "threaded c (xs @ ys) = (threaded c xs \<and> threaded (held c xs) ys)"
  by (induction c xs rule: threaded.induct) simp_all

lemma held_append: "held c (xs @ ys) = held (held c xs) ys"
  by (induction c xs rule: held.induct) simp_all

lemma threaded_throttled:
  "threaded c (replicate K (kwargs_of g s evs c, throttled))"
  by (induction K) (simp_all add: kwargs_of_def throttled_def)

lemma held_throttled: "held c (replicate K (kwargs, throttled)) = c"
  by (induction K) (simp_all add: throttled_def)

lemma settle_cursor:
  "snd (settle reply tok) = Inr tok' \<Longrightarrow> cursor_after tok reply = tok'"
  by (cases "(reply, tok)" rule: settle.cases) auto

lemma push_threaded:
  assumes "push_log_events env room w g s evs tok = (w', r)"
      and "threaded c0 (put_calls (trace w))"
      and "held c0 (put_calls (trace w)) = tok"
  shows "threaded c0 (put_calls (trace w'))
         \<and> (\<forall>tok'. r = Inr tok' \<longrightarrow> held c0 (put_calls (trace w')) = tok')"
proof (cases evs)
  case Nil
  with assms show ?thesis by auto
next
  case (Cons ev evs')
  from push_put_calls [OF assms(1) [unfolded Cons]] obtain K final where K:
    "put_calls (trace w') =
       put_calls (trace w) @ replicate K (kwargs_of g s evs tok, throttled) @ final"
    "(\<exists>reply. final = [(kwargs_of g s evs tok, reply)] \<and> r = snd (settle reply tok))
     \<or> (final = [] \<and> r = Inl (OtherException ''RecursionError''))"
    unfolding Cons by blast
  have seq: "sequenceToken (kwargs_of g s evs tok) = (if truthy tok then tok else None)"
    by (simp add: kwargs_of_def)
  from K(2) have new: "threaded tok (replicate K (kwargs_of g s evs tok, throttled) @ final)"
    by (auto simp: threaded_append threaded_throttled held_throttled seq)
  have th: "threaded c0 (put_calls (trace w'))"
    unfolding K(1) using assms(2,3) new by (simp add: threaded_append)
  have "held c0 (put_calls (trace w')) = tok'" if "r = Inr tok'" for tok'
  proof -
    from K(2) that obtain reply where
      "final = [(kwargs_of g s evs tok, reply)]" "snd (settle reply tok) = Inr tok'"
      by auto
    with settle_cursor [OF this(2)] show ?thesis
      unfolding K(1) using assms(3) by (simp add: held_append held_throttled)
  qed
  with th show ?thesis by blast
qed

lemma threaded_pairs:
  assumes "threaded c calls" and "Suc i < length calls"
  shows "sequenceToken (fst (calls ! Suc i))
           = (let c' = cursor_after (held c (take i calls)) (snd (calls ! i))
              in if truthy c' then c' else None)"
  using assms
proof (induction c calls arbitrary: i rule: threaded.induct)
  case (1 c)
  then show ?case by simp
next
  case (2 c kwargs reply calls)
  show ?case
  proof (cases i)
    case 0
    with "2.prems" obtain kwargs' reply' rest where "calls = (kwargs', reply') # rest"
      by (cases calls) auto
    with 0 "2.prems"(1) show ?thesis by simp
  next
    case (Suc j)
    with "2.prems" have "threaded (cursor_after c reply) calls" "Suc j < length calls"
      by simp_all
    from "2.IH" [OF this] Suc show ?thesis by simp
  qed
qed

lemma threaded_nth:
  assumes "threaded c calls" and "i < length calls"
  shows "sequenceToken (fst (calls ! i))
           = (let c' = held c (take i calls) in if truthy c' then c' else None)"
  using assms
proof (induction c calls arbitrary: i rule: threaded.induct)
  case (1 c)
  then show ?case by simp
next
  case (2 c kwargs reply calls)
  show ?case
  proof (cases i)
    case 0
    with "2.prems"(1) show ?thesis by simp
  next
    case (Suc j)
    with "2.prems" have "threaded (cursor_after c reply) calls" "j < length calls"
      by simp_all
    from "2.IH" [OF this] Suc show ?thesis by simp
  qed
qed

lemma submitted_append: "submitted (xs @ ys) = submitted xs @ submitted ys"
  by (simp add: submitted_def put_calls_append)

lemma submitted_Nil: "submitted [] = []"
  by (simp add: submitted_def)

lemma submitted_backoffs: "submitted (concat (replicate K (backoff kwargs))) = []"
  by (simp add: submitted_def put_calls_backoffs)

lemma sink_backoffs: "list_all sink_action (concat (replicate K (backoff kwargs)))"
  by (induction K) (simp_all add: backoff_def)

lemma sink_settle: "list_all sink_action (fst (settle reply tok))"
  by (cases "(reply, tok)" rule: settle.cases) simp_all

text \<open>
  What one call of \<open>push_log_events\<close> with a batch that is not empty adds to the trace:
  actions of its own only, in which every call of the sink carries this batch. The batch
  is handed over once, unless the throttling outlasts the room for retries.
\<close>

lemma push_new:
  assumes "push_log_events env room w g s log_events tok = (w', r)"
      and "log_events \<noteq> []"
  shows "\<exists>new. trace w' = trace w @ new \<and> list_all sink_action new
           \<and> list_all (\<lambda>call. logEvents (fst call) = log_events) (put_calls new)
           \<and> (submitted new = [log_events]
               \<or> submitted new = [] \<and> r = Inl (OtherException ''RecursionError''))
           \<and> clock_reads w' = clock_reads w"
proof -
  from assms(2) obtain ev evs where evs: "log_events = ev # evs" by (cases log_events) auto
  let ?kw = "kwargs_of g s (ev # evs) tok"
  have kw: "logEvents ?kw = log_events" by (simp add: kwargs_of_def evs)
  from assms(1) [unfolded evs] show ?thesis
  proof (cases rule: push_cases)
    case (settled K)
    let ?new = "concat (replicate K (backoff ?kw))
                  @ PutLogEvents ?kw (put_log_events_reply env (puts w + K))
                  # fst (settle (put_log_events_reply env (puts w + K)) tok)"
    have "submitted ?new = [log_events]"
      using settled(3) kw
      by (simp add: submitted_def put_calls_append put_calls_backoffs put_calls_settle)
    moreover have "list_all sink_action ?new"
      by (simp add: sink_backoffs sink_settle)
    moreover have "list_all (\<lambda>call. logEvents (fst call) = log_events) (put_calls ?new)"
      using kw by (simp add: put_calls_append put_calls_backoffs put_calls_settle list_all_iff)
    ultimately show ?thesis
      by (intro exI [of _ ?new]) (simp add: settled(4))
  next
    case exhausted
    let ?new = "concat (replicate (Suc room) (backoff ?kw))"
    have "submitted ?new = []" by (rule submitted_backoffs)
    moreover have "list_all sink_action ?new" by (rule sink_backoffs)
    moreover have "list_all (\<lambda>call. logEvents (fst call) = log_events) (put_calls ?new)"
      using kw by (simp add: put_calls_backoffs list_all_iff del: replicate.simps concat.simps)
    ultimately show ?thesis
      using exhausted(3)
      by (intro exI [of _ ?new]) (simp add: exhausted(2) del: replicate.simps concat.simps)
  qed
qed

section \<open>Properties of the two passes\<close>

lemma dropWhile_all: "(\<forall>x\<in>set (dropWhile P s). P x) = (\<forall>x\<in>set s. P x)"
  by (induction s) auto

lemma strip_Nil_iff: "(strip s = []) = list_all isspace s"
  by (simp add: strip_def dropWhile_eq_Nil_conv dropWhile_all list_all_iff)

lemma blank_messages_of:
  "blank line \<Longrightarrow> messages_of (line # rest) = messages_of rest"
  by (auto simp: blank_def strip_Nil_iff split: option.splits)

text \<open>
  The second read adds no event: the comprehension of lines 169-175 yields a list only
  for an empty read, and then the empty list.
\<close>

lemma drain_events_Inr: "drain_events content = Inr later \<Longrightarrow> content = [] \<and> later = []"
  by (cases content) simp_all

lemma drain_events_raises:
  "content \<noteq> [] \<Longrightarrow> drain_events content = Inl (OtherException ''AttributeError'')"
  by (cases content) simp_all

lemma stream_loop_Cons_cases:
  assumes "stream_loop env a w (line # rest) evs tok = (w', r)"
  obtains
    (undecodable) "decode_utf8 line = None" "w' = w"
      "r = Inl (OtherException ''UnicodeDecodeError'')"
  | (blank) decoded where "decode_utf8 line = Some decoded" "strip decoded = []"
      "stream_loop env a w rest evs tok = (w', r)"
  | (kept) decoded where "decode_utf8 line = Some decoded" "strip decoded \<noteq> []"
      "length evs + 1 < 10"
      "stream_loop env a (w\<lparr>clock_reads := Suc (clock_reads w)\<rparr>) rest
         (evs @ [\<lparr>timestamp = now env (clock_reads w), message = strip decoded\<rparr>]) tok
       = (w', r)"
  | (raised) decoded e where "decode_utf8 line = Some decoded" "strip decoded \<noteq> []"
      "10 \<le> length evs + 1"
      "push_log_events env (stack_room env) (w\<lparr>clock_reads := Suc (clock_reads w)\<rparr>)
         (aws_cloudwatch_group a) (aws_cloudwatch_stream a)
         (evs @ [\<lparr>timestamp = now env (clock_reads w), message = strip decoded\<rparr>]) tok
       = (w', Inl e)"
      "r = Inl e"
  | (flushed) decoded w2 tok1 where "decode_utf8 line = Some decoded" "strip decoded \<noteq> []"
      "10 \<le> length evs + 1"
      "push_log_events env (stack_room env) (w\<lparr>clock_reads := Suc (clock_reads w)\<rparr>)
         (aws_cloudwatch_group a) (aws_cloudwatch_stream a)
         (evs @ [\<lparr>timestamp = now env (clock_reads w), message = strip decoded\<rparr>]) tok
       = (w2, Inr tok1)"
      "stream_loop env a w2 rest [] tok1 = (w', r)"
  using assms
  by (auto simp: Let_def split: option.splits if_splits sum.splits prod.splits)

lemma stream_loop_threaded:
  assumes "stream_loop env a w lines evs tok = (w', r)"
      and "threaded c0 (put_calls (trace w))"
      and "held c0 (put_calls (trace w)) = tok"
  shows "threaded c0 (put_calls (trace w'))
         \<and> (\<forall>evs' tok'. r = Inr (evs', tok') \<longrightarrow> held c0 (put_calls (trace w')) = tok')"
  using assms
proof (induction lines arbitrary: w evs tok)
  case Nil
  then show ?case by auto
next
  case (Cons line rest)
  from Cons.prems(1) show ?case
  proof (cases rule: stream_loop_Cons_cases)
    case undecodable
    with Cons.prems show ?thesis by simp
  next
    case (blank decoded)
    from Cons.IH [OF blank(3) Cons.prems(2,3)] show ?thesis .
  next
    case (kept decoded)
    from Cons.IH [OF kept(4)] Cons.prems(2,3) show ?thesis by simp
  next
    case (raised decoded e)
    from push_threaded [OF raised(4), of c0] Cons.prems(2,3) raised(5) show ?thesis by simp
  next
    case (flushed decoded w2 tok1)
    from push_threaded [OF flushed(4), of c0] Cons.prems(2,3)
    have "threaded c0 (put_calls (trace w2))" "held c0 (put_calls (trace w2)) = tok1"
      by simp_all
    from Cons.IH [OF flushed(5) this] show ?thesis .
  qed
qed

text \<open>
  What the streaming loop adds to the trace: actions of \<open>push_log_events\<close> only, and
  every call of the sink among them carries exactly ten events.
\<close>

lemma stream_loop_frame:
  assumes "stream_loop env a w lines evs tok = (w', r)"
      and "length evs < 10"
  shows "\<exists>new. trace w' = trace w @ new \<and> list_all sink_action new
           \<and> list_all (\<lambda>call. length (logEvents (fst call)) = 10) (put_calls new)"
  using assms
proof (induction lines arbitrary: w evs tok)
  case Nil
  then show ?case by auto
next
  case (Cons line rest)
  from Cons.prems(1) show ?case
  proof (cases rule: stream_loop_Cons_cases)
    case undecodable
    then show ?thesis by simp
  next
    case (blank decoded)
    from Cons.IH [OF blank(3) Cons.prems(2)] show ?thesis .
  next
    case (kept decoded)
    from kept(3) have "length (evs @ [\<lparr>timestamp = now env (clock_reads w),
                                       message = strip decoded\<rparr>]) < 10" by simp
    from Cons.IH [OF kept(4) this] show ?thesis by simp
  next
    case (raised decoded e)
    let ?batch = "evs @ [\<lparr>timestamp = now env (clock_reads w), message = strip decoded\<rparr>]"
    from raised(3) Cons.prems(2) have len: "length ?batch = 10" by simp
    from push_new [OF raised(4)] obtain new where
      "trace w' = trace w @ new" "list_all sink_action new"
      "list_all (\<lambda>call. logEvents (fst call) = ?batch) (put_calls new)" by auto
    with len show ?thesis
      by (intro exI [of _ new]) (simp add: list_all_iff)
  next
    case (flushed decoded w2 tok1)
    let ?batch = "evs @ [\<lparr>timestamp = now env (clock_reads w), message = strip decoded\<rparr>]"
    from flushed(3) Cons.prems(2) have len: "length ?batch = 10" by simp
    from push_new [OF flushed(4)] obtain new1 where new1:
      "trace w2 = trace w @ new1" "list_all sink_action new1"
      "list_all (\<lambda>call. logEvents (fst call) = ?batch) (put_calls new1)" by auto
    from Cons.IH [OF flushed(5)] obtain new2 where new2:
      "trace w' = trace w2 @ new2" "list_all sink_action new2"
      "list_all (\<lambda>call. length (logEvents (fst call)) = 10) (put_calls new2)" by auto
    from new1(3) len
    have "list_all (\<lambda>call. length (logEvents (fst call)) = 10) (put_calls new1)"
      by (simp add: list_all_iff)
    with new1 new2 show ?thesis
      by (intro exI [of _ "new1 @ new2"]) (simp add: put_calls_append)
  qed
qed

text \<open>
  A streaming loop that completes: the batches handed to the sink have ten events each,
  fewer than ten events are left in the buffer, and the batches followed by the buffer
  are the accepted lines, in order.
\<close>

lemma stream_loop_batches:
  assumes "stream_loop env a w lines evs tok = (w', Inr (evs', tok'))"
      and "length evs < 10"
  shows "\<exists>new. trace w' = trace w @ new
           \<and> list_all (\<lambda>batch. length batch = 10) (submitted new)
           \<and> length evs' < 10
           \<and> map message (concat (submitted new) @ evs') = map message evs @ messages_of lines
           \<and> clock_reads w' = clock_reads w + length (messages_of lines)"
  using assms
proof (induction lines arbitrary: w evs tok)
  case Nil
  then show ?case by (auto simp: submitted_Nil)
next
  case (Cons line rest)
  from Cons.prems(1) show ?case
  proof (cases rule: stream_loop_Cons_cases)
    case undecodable
    then show ?thesis by simp
  next
    case (blank decoded)
    from Cons.IH [OF blank(3) Cons.prems(2)] blank(1,2) show ?thesis by simp
  next
    case (kept decoded)
    from kept(3) have "length (evs @ [\<lparr>timestamp = now env (clock_reads w),
                                       message = strip decoded\<rparr>]) < 10" by simp
    from Cons.IH [OF kept(4) this] kept(1,2) show ?thesis by simp
  next
    case (raised decoded e)
    then show ?thesis by simp
  next
    case (flushed decoded w2 tok1)
    let ?batch = "evs @ [\<lparr>timestamp = now env (clock_reads w), message = strip decoded\<rparr>]"
    from flushed(3) Cons.prems(2) have len: "length ?batch = 10" by simp
    from push_new [OF flushed(4)] obtain new1 where new1:
      "trace w2 = trace w @ new1" "submitted new1 = [?batch]"
      "clock_reads w2 = Suc (clock_reads w)" by auto
    from Cons.IH [OF flushed(5)] obtain new2 where new2:
      "trace w' = trace w2 @ new2"
      "list_all (\<lambda>batch. length batch = 10) (submitted new2)"
      "length evs' < 10"
      "map message (concat (submitted new2) @ evs') = messages_of rest"
      "clock_reads w' = clock_reads w2 + length (messages_of rest)" by auto
    show ?thesis
      using new1 new2 len flushed(1,2)
      by (intro exI [of _ "new1 @ new2"]) (simp add: submitted_append)
  qed
qed

lemma length_concat_tens:
  "list_all (\<lambda>batch. length batch = 10) batches \<Longrightarrow>
     length (concat batches) = 10 * length batches"
  by (induction batches) simp_all

lemma stream_loop_counts:
  assumes "stream_loop env a w lines [] tok = (w', Inr (evs', tok'))"
  shows "\<exists>new. trace w' = trace w @ new
           \<and> list_all (\<lambda>batch. length batch = 10) (submitted new)
           \<and> length (submitted new) = length (messages_of lines) div 10
           \<and> length evs' = length (messages_of lines) mod 10
           \<and> map message (concat (submitted new) @ evs') = messages_of lines"
proof -
  from stream_loop_batches [OF assms] obtain new where new:
    "trace w' = trace w @ new"
    "list_all (\<lambda>batch. length batch = 10) (submitted new)"
    "length evs' < 10"
    "map message (concat (submitted new) @ evs') = messages_of lines"
    by auto
  from new(4) have "length (concat (submitted new) @ evs') = length (messages_of lines)"
    by (metis length_map)
  with length_concat_tens [OF new(2)]
  have n: "length (messages_of lines) = 10 * length (submitted new) + length evs'"
    by simp
  from n new(3) have "length (submitted new) = length (messages_of lines) div 10"
    and "length evs' = length (messages_of lines) mod 10"
    by simp_all
  with new show ?thesis by blast
qed

text \<open>
  Whether it completes or not, the streaming loop hands to the sink a prefix of the
  accepted lines: nothing twice, nothing out of order.
\<close>

lemma stream_loop_prefix:
  assumes "stream_loop env a w lines evs tok = (w', r)"
  shows "\<exists>new pending. trace w' = trace w @ new
           \<and> map message evs @ messages_of lines
               = map message (concat (submitted new)) @ pending"
  using assms
proof (induction lines arbitrary: w evs tok)
  case Nil
  then show ?case by (auto simp: submitted_Nil)
next
  case (Cons line rest)
  from Cons.prems(1) show ?case
  proof (cases rule: stream_loop_Cons_cases)
    case undecodable
    then show ?thesis by (auto simp: submitted_Nil)
  next
    case (blank decoded)
    from Cons.IH [OF blank(3)] blank(1,2) show ?thesis by simp
  next
    case (kept decoded)
    from Cons.IH [OF kept(4)] kept(1,2) show ?thesis by simp
  next
    case (raised decoded e)
    let ?batch = "evs @ [\<lparr>timestamp = now env (clock_reads w), message = strip decoded\<rparr>]"
    from push_new [OF raised(4)] obtain new where new:
      "trace w' = trace w @ new" "submitted new = [?batch] \<or> submitted new = []" by auto
    from new(2) show ?thesis
    proof
      assume "submitted new = [?batch]"
      with new(1) raised(1,2) show ?thesis
        by (intro exI [of _ new] exI [of _ "messages_of rest"]) simp
    next
      assume "submitted new = []"
      with new(1) show ?thesis
        by (intro exI [of _ new] exI [of _ "map message evs @ messages_of (line # rest)"]) simp
    qed
  next
    case (flushed decoded w2 tok1)
    let ?batch = "evs @ [\<lparr>timestamp = now env (clock_reads w), message = strip decoded\<rparr>]"
    from push_new [OF flushed(4)] obtain new1 where new1:
      "trace w2 = trace w @ new1" "submitted new1 = [?batch]" by auto
    from Cons.IH [OF flushed(5)] obtain new2 pending where new2:
      "trace w' = trace w2 @ new2"
      "messages_of rest = map message (concat (submitted new2)) @ pending" by auto
    show ?thesis
      using new1 new2 flushed(1,2)
      by (intro exI [of _ "new1 @ new2"] exI [of _ pending]) (simp add: submitted_append)
  qed
qed

lemma stream_loop_decodable:
  assumes "stream_loop env a w lines evs tok = (w', Inr x)"
  shows "length (messages_of lines) = length (filter (\<lambda>line. \<not> blank line) lines)"
  using assms
proof (induction lines arbitrary: w evs tok)
  case Nil
  show ?case by simp
next
  case (Cons line rest)
  from Cons.prems show ?case
  proof (cases rule: stream_loop_Cons_cases)
    case undecodable
    then show ?thesis by simp
  next
    case (blank decoded)
    with Cons.IH [OF blank(3)] show ?thesis by (simp add: blank_def strip_Nil_iff)
  next
    case (kept decoded)
    with Cons.IH [OF kept(4)] show ?thesis by (simp add: blank_def strip_Nil_iff)
  next
    case (raised decoded e)
    then show ?thesis by simp
  next
    case (flushed decoded w2 tok1)
    with Cons.IH [OF flushed(5)] show ?thesis by (simp add: blank_def strip_Nil_iff)
  qed
qed

text \<open>
  The streaming loop up to its next push, when every line decodes, the lines to come
  fill the buffer, and the sink does not throttle the call: the batch is the buffer
  followed by the events of the next accepted lines, ten in all; it is sent once, with
  the held cursor; and the loop goes on after it with the lines that are left, an empty
  buffer and the cursor the call leaves, unless the reply makes \<open>push_log_events\<close>
  raise.
\<close>

lemma stream_loop_fill:
  assumes "list_all (\<lambda>line. decode_utf8 line \<noteq> None) lines"
      and "length evs < 10"
      and "10 \<le> length evs + length (messages_of lines)"
      and "put_log_events_reply env (puts w) \<noteq> throttled"
      and "stream_loop env a w lines evs tok = (w', r)"
  shows "\<exists>batch rest w2.
           length batch = 10
         \<and> map message batch = map message evs @ take (10 - length evs) (messages_of lines)
         \<and> messages_of rest = drop (10 - length evs) (messages_of lines)
         \<and> list_all (\<lambda>line. decode_utf8 line \<noteq> None) rest
         \<and> trace w2 = trace w
               @ PutLogEvents (kwargs_of (aws_cloudwatch_group a) (aws_cloudwatch_stream a)
                                 batch tok)
                   (put_log_events_reply env (puts w))
               # fst (settle (put_log_events_reply env (puts w)) tok)
         \<and> puts w2 = Suc (puts w)
         \<and> (case snd (settle (put_log_events_reply env (puts w)) tok) of
              Inl e \<Rightarrow> w' = w2 \<and> r = Inl e
            | Inr tok1 \<Rightarrow> stream_loop env a w2 rest [] tok1 = (w', r))"
  using assms
proof (induction lines arbitrary: w evs)
  case Nil
  then show ?case by simp
next
  case (Cons line rest)
  from Cons.prems(1) have dec: "decode_utf8 line \<noteq> None"
    and dec_rest: "list_all (\<lambda>line. decode_utf8 line \<noteq> None) rest" by simp_all
  let ?reply = "put_log_events_reply env (puts w)"
  from Cons.prems(5) show ?case
  proof (cases rule: stream_loop_Cons_cases)
    case undecodable
    with dec show ?thesis by simp
  next
    case (blank decoded)
    then have m: "messages_of (line # rest) = messages_of rest" by simp
    from Cons.IH [OF dec_rest Cons.prems(2) Cons.prems(3) [unfolded m] Cons.prems(4) blank(3)]
    show ?thesis unfolding m .
  next
    case (kept decoded)
    let ?ev = "\<lparr>timestamp = now env (clock_reads w), message = strip decoded\<rparr>"
    let ?w1 = "w\<lparr>clock_reads := Suc (clock_reads w)\<rparr>"
    from kept(1,2) have m: "messages_of (line # rest) = strip decoded # messages_of rest"
      by simp
    have len: "length (evs @ [?ev]) < 10" using kept(3) by simp
    have enough: "10 \<le> length (evs @ [?ev]) + length (messages_of rest)"
      using Cons.prems(3) unfolding m by simp
    have reply: "put_log_events_reply env (puts ?w1) \<noteq> throttled"
      using Cons.prems(4) by simp
    from Cons.IH [OF dec_rest len enough reply kept(4)] obtain batch rest' w2 where IH:
      "length batch = 10"
      "map message batch
         = map message (evs @ [?ev]) @ take (10 - length (evs @ [?ev])) (messages_of rest)"
      "messages_of rest' = drop (10 - length (evs @ [?ev])) (messages_of rest)"
      "list_all (\<lambda>line. decode_utf8 line \<noteq> None) rest'"
      "trace w2 = trace ?w1
               @ PutLogEvents (kwargs_of (aws_cloudwatch_group a) (aws_cloudwatch_stream a)
                                 batch tok)
                   (put_log_events_reply env (puts ?w1))
               # fst (settle (put_log_events_reply env (puts ?w1)) tok)"
      "puts w2 = Suc (puts ?w1)"
      "case snd (settle (put_log_events_reply env (puts ?w1)) tok) of
              Inl e \<Rightarrow> w' = w2 \<and> r = Inl e
            | Inr tok1 \<Rightarrow> stream_loop env a w2 rest' [] tok1 = (w', r)"
      by blast
    from kept(3) have d: "10 - length evs = Suc (10 - length (evs @ [?ev]))" by simp
    have "map message batch
            = map message evs @ take (10 - length evs) (messages_of (line # rest))"
      "messages_of rest' = drop (10 - length evs) (messages_of (line # rest))"
      unfolding m d using IH(2,3) by simp_all
    with IH(1,4,5,6,7) show ?thesis
      by (intro exI [of _ batch] exI [of _ rest'] exI [of _ w2]) simp
  next
    case (raised decoded e)
    let ?ev = "\<lparr>timestamp = now env (clock_reads w), message = strip decoded\<rparr>"
    let ?w1 = "w\<lparr>clock_reads := Suc (clock_reads w)\<rparr>"
    let ?w2 = "?w1\<lparr>trace := trace ?w1
                    @ PutLogEvents (kwargs_of (aws_cloudwatch_group a) (aws_cloudwatch_stream a)
                                      (evs @ [?ev]) tok) ?reply
                    # fst (settle ?reply tok),
                  puts := Suc (puts ?w1)\<rparr>"
    from raised(1,2) have m: "messages_of (line # rest) = strip decoded # messages_of rest"
      by simp
    from raised(3) Cons.prems(2) have nine: "length evs = 9" by simp
    have reply: "put_log_events_reply env (puts ?w1) \<noteq> throttled"
      using Cons.prems(4) by simp
    from push_settled [OF _ reply, of "evs @ [?ev]" "stack_room env"
        "aws_cloudwatch_group a" "aws_cloudwatch_stream a" tok] raised(4)
    have "w' = ?w2" "snd (settle ?reply tok) = Inl e" by simp_all
    moreover have "take (10 - length evs) (messages_of (line # rest)) = [strip decoded]"
      "drop (10 - length evs) (messages_of (line # rest)) = messages_of rest"
      unfolding m nine by simp_all
    ultimately show ?thesis
      using raised(5) dec_rest nine
      by (intro exI [of _ "evs @ [?ev]"] exI [of _ rest] exI [of _ ?w2])
         (simp del: messages_of.simps)
  next
    case (flushed decoded w2 tok1)
    let ?ev = "\<lparr>timestamp = now env (clock_reads w), message = strip decoded\<rparr>"
    let ?w1 = "w\<lparr>clock_reads := Suc (clock_reads w)\<rparr>"
    let ?w2 = "?w1\<lparr>trace := trace ?w1
                    @ PutLogEvents (kwargs_of (aws_cloudwatch_group a) (aws_cloudwatch_stream a)
                                      (evs @ [?ev]) tok) ?reply
                    # fst (settle ?reply tok),
                  puts := Suc (puts ?w1)\<rparr>"
    from flushed(1,2) have m: "messages_of (line # rest) = strip decoded # messages_of rest"
      by simp
    from flushed(3) Cons.prems(2) have nine: "length evs = 9" by simp
    have reply: "put_log_events_reply env (puts ?w1) \<noteq> throttled"
      using Cons.prems(4) by simp
    from push_settled [OF _ reply, of "evs @ [?ev]" "stack_room env"
        "aws_cloudwatch_group a" "aws_cloudwatch_stream a" tok] flushed(4)
    have "w2 = ?w2" "snd (settle ?reply tok) = Inr tok1" by simp_all
    moreover have "take (10 - length evs) (messages_of (line # rest)) = [strip decoded]"
      "drop (10 - length evs) (messages_of (line # rest)) = messages_of rest"
      unfolding m nine by simp_all
    ultimately show ?thesis
      using flushed(5) dec_rest nine
      by (intro exI [of _ "evs @ [?ev]"] exI [of _ rest] exI [of _ ?w2])
         (simp del: messages_of.simps)
  qed
qed

text \<open>
  Three batches, of which the sink accepts the first and rejects the second with a
  \<open>ClientError\<close> that is not a throttling failure: the third is sent all the same, and
  like the second it carries the token of the first response.
\<close>

lemma stream_loop_three:
  assumes dec: "list_all (\<lambda>line. decode_utf8 line \<noteq> None) lines"
      and many: "30 \<le> length (messages_of lines)"
      and start: "puts w = 0"
      and r0: "put_log_events_reply env 0 = PutReturns (Some t1)"
      and r1: "put_log_events_reply env 1 = PutRaises (ClientError code)"
      and code: "code \<noteq> ''ThrottlingException''"
      and r2: "put_log_events_reply env 2 \<noteq> throttled"
      and run: "stream_loop env a w lines [] None = (w', r)"
  shows "\<exists>c1 c2 c3 more.
           put_calls (trace w') = put_calls (trace w) @ c1 # c2 # c3 # more
         \<and> summary c1 = (aws_cloudwatch_group a, aws_cloudwatch_stream a,
                          take 10 (messages_of lines), None, PutReturns (Some t1))
         \<and> summary c2 = (aws_cloudwatch_group a, aws_cloudwatch_stream a,
                          take 10 (drop 10 (messages_of lines)),
                          (if t1 = [] then None else Some t1), PutRaises (ClientError code))
         \<and> summary c3 = (aws_cloudwatch_group a, aws_cloudwatch_stream a,
                          take 10 (drop 20 (messages_of lines)),
                          (if t1 = [] then None else Some t1), put_log_events_reply env 2)"
proof -
  let ?g = "aws_cloudwatch_group a" and ?s = "aws_cloudwatch_stream a"
  let ?msgs = "messages_of lines"
  let ?r3 = "put_log_events_reply env (Suc (Suc 0))"
  have r1': "put_log_events_reply env (Suc 0) = PutRaises (ClientError code)"
    using r1 by simp
  have eq2: "?r3 = put_log_events_reply env 2" by (simp add: numeral_2_eq_2)
  have first: "put_log_events_reply env (puts w) \<noteq> throttled"
    using r0 start by (simp add: throttled_def)
  from stream_loop_fill [OF dec _ _ first run] many obtain batch1 rest1 w2 where one:
    "map message batch1 = take 10 ?msgs" "messages_of rest1 = drop 10 ?msgs"
    "list_all (\<lambda>line. decode_utf8 line \<noteq> None) rest1"
    "trace w2 = trace w @ [PutLogEvents (kwargs_of ?g ?s batch1 None) (PutReturns (Some t1))]"
    "puts w2 = Suc 0"
    "stream_loop env a w2 rest1 [] (Some t1) = (w', r)"
    by (auto simp: r0 start)
  have second: "put_log_events_reply env (puts w2) \<noteq> throttled"
    using r1' code one(5) by (simp add: throttled_def)
  have many1: "10 \<le> length ([] :: log_event list) + length (messages_of rest1)"
    using many one(2) by simp
  from stream_loop_fill [OF one(3) _ many1 second one(6)] obtain batch2 rest2 w3 where two:
    "map message batch2 = take 10 (drop 10 ?msgs)" "messages_of rest2 = drop 20 ?msgs"
    "list_all (\<lambda>line. decode_utf8 line \<noteq> None) rest2"
    "trace w3 = trace w2
       @ [PutLogEvents (kwargs_of ?g ?s batch2 (Some t1)) (PutRaises (ClientError code)),
          Log ERROR ''Failed to push log events: '' (Some (ClientError code))]"
    "puts w3 = Suc (Suc 0)"
    "stream_loop env a w3 rest2 [] (Some t1) = (w', r)"
    by (auto simp: r1' one(2,5))
  have third: "put_log_events_reply env (puts w3) \<noteq> throttled"
    using r2 two(5) eq2 by simp
  have many2: "10 \<le> length ([] :: log_event list) + length (messages_of rest2)"
    using many two(2) by simp
  from stream_loop_fill [OF two(3) _ many2 third two(6)] obtain batch3 rest3 w4 where three:
    "map message batch3 = take 10 (drop 20 ?msgs)"
    "trace w4 = trace w3
       @ PutLogEvents (kwargs_of ?g ?s batch3 (Some t1)) ?r3 # fst (settle ?r3 (Some t1))"
    "case snd (settle ?r3 (Some t1)) of
       Inl e \<Rightarrow> w' = w4 \<and> r = Inl e
     | Inr tok1 \<Rightarrow> stream_loop env a w4 rest3 [] tok1 = (w', r)"
    by (auto simp: two(2,5))
  have "\<exists>more. trace w' = trace w4 @ more"
  proof (cases "snd (settle ?r3 (Some t1))")
    case (Inl e)
    with three(3) show ?thesis by simp
  next
    case (Inr tok1)
    with three(3) have "stream_loop env a w4 rest3 [] tok1 = (w', r)" by simp
    from stream_loop_frame [OF this] show ?thesis by auto
  qed
  then obtain more where more: "trace w' = trace w4 @ more" by blast
  let ?c1 = "(kwargs_of ?g ?s batch1 None, PutReturns (Some t1))"
  let ?c2 = "(kwargs_of ?g ?s batch2 (Some t1), PutRaises (ClientError code))"
  let ?c3 = "(kwargs_of ?g ?s batch3 (Some t1), ?r3)"
  have "put_calls (trace w') = put_calls (trace w) @ ?c1 # ?c2 # ?c3 # put_calls more"
    unfolding more three(2) two(4) one(4)
    by (simp add: put_calls_append put_calls_settle)
  moreover have "summary ?c1 = (?g, ?s, take 10 ?msgs, None, PutReturns (Some t1))"
    "summary ?c2 = (?g, ?s, take 10 (drop 10 ?msgs),
                    (if t1 = [] then None else Some t1), PutRaises (ClientError code))"
    "summary ?c3 = (?g, ?s, take 10 (drop 20 ?msgs),
                    (if t1 = [] then None else Some t1), put_log_events_reply env 2)"
    by (simp_all add: summary_def kwargs_of_explicit one(1) two(1) three(1) eq2)
  ultimately show ?thesis by blast
qed

lemma acquired_append: "acquired (xs @ ys) = acquired xs @ acquired ys"
  by (induction xs rule: acquired.induct) simp_all

lemma cleanup_calls_append: "cleanup_calls (xs @ ys) = cleanup_calls xs @ cleanup_calls ys"
  by (simp add: cleanup_calls_def)

lemma sink_actions_no_cleanup:
  "list_all sink_action as \<Longrightarrow> cleanup_calls as = [] \<and> acquired as = []"
proof (induction as)
  case Nil
  show ?case by (simp add: cleanup_calls_def)
next
  case (Cons x xs)
  then show ?case by (cases x) (simp_all add: cleanup_calls_def)
qed

lemma drain_and_push_cases:
  assumes "drain_and_push env a w container evs tok = (w', r)"
  obtains
    (read_failed) e where "logs_drain env = Inl e"
      "w' = emit w [ContainerLogs container False]" "r = Inl e"
  | (read_not_empty) out where "logs_drain env = Inr out" "out \<noteq> []"
      "w' = emit w [ContainerLogs container False]"
      "r = Inl (OtherException ''AttributeError'')"
  | (all_sent) "logs_drain env = Inr []" "evs = []"
      "w' = emit w [ContainerLogs container False]" "r = Inr ()"
  | (pushed) r' where "logs_drain env = Inr []" "evs \<noteq> []"
      "push_log_events env (stack_room env) (emit w [ContainerLogs container False])
         (aws_cloudwatch_group a) (aws_cloudwatch_stream a) evs tok = (w', r')"
      "r = (case r' of Inl e \<Rightarrow> Inl e | Inr unused \<Rightarrow> Inr ())"
proof (cases "logs_drain env")
  case (Inl e)
  with assms have "w' = emit w [ContainerLogs container False]" "r = Inl e"
    by (simp_all add: drain_and_push_def Let_def)
  with Inl read_failed show thesis by blast
next
  case (Inr content)
  show thesis
  proof (cases content)
    case Nil
    show thesis
    proof (cases "evs = []")
      case True
      with assms Inr Nil have "w' = emit w [ContainerLogs container False]" "r = Inr ()"
        by (simp_all add: drain_and_push_def Let_def)
      with Inr Nil True all_sent show thesis by blast
    next
      case False
      obtain w3 r' where p: "push_log_events env (stack_room env)
         (emit w [ContainerLogs container False])
         (aws_cloudwatch_group a) (aws_cloudwatch_stream a) evs tok = (w3, r')" by force
      with assms Inr Nil False
      have "w' = w3" "r = (case r' of Inl e \<Rightarrow> Inl e | Inr unused \<Rightarrow> Inr ())"
        by (auto simp: drain_and_push_def Let_def split: sum.splits)
      with p Inr Nil False pushed show thesis by blast
    qed
  next
    case (Cons byte rest)
    with assms Inr have "w' = emit w [ContainerLogs container False]"
      "r = Inl (OtherException ''AttributeError'')"
      by (simp_all add: drain_and_push_def Let_def)
    with Inr Cons read_not_empty [of content] show thesis by blast
  qed
qed

lemma pump_cases:
  assumes "pump env a w container = (w', r)"
  obtains
    (stream_raised) e where
      "stream_loop env a (emit w [ContainerLogs container True]) (fst (logs_stream env))
         [] None = (w', Inl e)" "r = Inl e"
  | (stream_broke) evs tok e where
      "stream_loop env a (emit w [ContainerLogs container True]) (fst (logs_stream env))
         [] None = (w', Inr (evs, tok))" "snd (logs_stream env) = Some e" "r = Inl e"
  | (drained) w1 evs tok where
      "stream_loop env a (emit w [ContainerLogs container True]) (fst (logs_stream env))
         [] None = (w1, Inr (evs, tok))" "snd (logs_stream env) = None"
      "drain_and_push env a w1 container evs tok = (w', r)"
  using assms unfolding pump_def
  by (auto split: option.splits sum.splits prod.splits)

text \<open>
  What the streaming and draining code adds to the trace: the two reads and actions of
  \<open>push_log_events\<close>. No container is acquired or cleaned up, and every call of the
  sink carries at least one and at most ten events.
\<close>

lemma pump_frame:
  assumes "pump env a w container = (w', r)"
  shows "\<exists>new. trace w' = trace w @ new \<and> cleanup_calls new = [] \<and> acquired new = []
           \<and> list_all (\<lambda>call. 1 \<le> length (logEvents (fst call))
                                \<and> length (logEvents (fst call)) \<le> 10) (put_calls new)"
proof -
  have logs: "cleanup_calls [ContainerLogs container b] = []"
    "acquired [ContainerLogs container b] = []" for b
    by (simp_all add: cleanup_calls_def)
  note app = cleanup_calls_append acquired_append put_calls_append
  have weaken: "list_all (\<lambda>call. 1 \<le> length (logEvents (fst call))
                                \<and> length (logEvents (fst call)) \<le> 10) calls"
    if "list_all (\<lambda>call. length (logEvents (fst call)) = 10) calls"
    for calls :: "(put_kwargs \<times> put_outcome) list"
    using that by (simp add: list_all_iff)
  have streamed: "\<exists>new. trace w1 = trace w @ [ContainerLogs container True] @ new
           \<and> list_all sink_action new
           \<and> list_all (\<lambda>call. 1 \<le> length (logEvents (fst call))
                                \<and> length (logEvents (fst call)) \<le> 10) (put_calls new)"
    if "stream_loop env a (emit w [ContainerLogs container True]) (fst (logs_stream env))
         [] None = (w1, r1)" for w1 r1
  proof -
    from stream_loop_frame [OF that] obtain new where
      "trace w1 = trace w @ [ContainerLogs container True] @ new" "list_all sink_action new"
      "list_all (\<lambda>call. length (logEvents (fst call)) = 10) (put_calls new)"
      by (auto simp: emit_def)
    with weaken show ?thesis by blast
  qed
  from assms show ?thesis
  proof (cases rule: pump_cases)
    case (stream_raised e)
    from streamed [OF stream_raised(1)] obtain new where
      "trace w' = trace w @ [ContainerLogs container True] @ new" "list_all sink_action new"
      "list_all (\<lambda>call. 1 \<le> length (logEvents (fst call))
                          \<and> length (logEvents (fst call)) \<le> 10) (put_calls new)"
      by blast
    then show ?thesis
      by (intro exI [of _ "[ContainerLogs container True] @ new"])
         (simp add: app logs sink_actions_no_cleanup del: append.simps)
  next
    case (stream_broke evs tok e)
    from streamed [OF stream_broke(1)] obtain new where
      "trace w' = trace w @ [ContainerLogs container True] @ new" "list_all sink_action new"
      "list_all (\<lambda>call. 1 \<le> length (logEvents (fst call))
                          \<and> length (logEvents (fst call)) \<le> 10) (put_calls new)"
      by blast
    then show ?thesis
      by (intro exI [of _ "[ContainerLogs container True] @ new"])
         (simp add: app logs sink_actions_no_cleanup del: append.simps)
  next
    case (drained w1 evs tok)
    from streamed [OF drained(1)] obtain new where new:
      "trace w1 = trace w @ [ContainerLogs container True] @ new" "list_all sink_action new"
      "list_all (\<lambda>call. 1 \<le> length (logEvents (fst call))
                          \<and> length (logEvents (fst call)) \<le> 10) (put_calls new)"
      by blast
    from stream_loop_batches [OF drained(1)] have short: "length evs < 10" by auto
    have only_read: ?thesis if "w' = emit w1 [ContainerLogs container False]"
      using new that
      by (intro exI [of _ "[ContainerLogs container True] @ new @ [ContainerLogs container False]"])
         (simp add: app logs sink_actions_no_cleanup emit_def del: append.simps)
    from drained(3) show ?thesis
    proof (cases rule: drain_and_push_cases)
      case (read_failed e)
      with only_read show ?thesis by simp
    next
      case (read_not_empty out)
      with only_read show ?thesis by simp
    next
      case all_sent
      with only_read show ?thesis by simp
    next
      case (pushed r')
      from push_new [OF pushed(3,2)] obtain new2 where new2:
        "trace w' = trace w1 @ [ContainerLogs container False] @ new2"
        "list_all sink_action new2"
        "list_all (\<lambda>call. logEvents (fst call) = evs) (put_calls new2)"
        by (auto simp: emit_def)
      from new2(3) short pushed(2)
      have "list_all (\<lambda>call. 1 \<le> length (logEvents (fst call))
                          \<and> length (logEvents (fst call)) \<le> 10) (put_calls new2)"
        by (cases evs) (auto simp: list_all_iff)
      with new new2 show ?thesis
        by (intro exI [of _ "[ContainerLogs container True] @ new
                               @ [ContainerLogs container False] @ new2"])
           (simp add: app logs sink_actions_no_cleanup del: append.simps)
    qed
  qed
qed

lemma pump_stream:
  assumes "pump env a w container = (w', r)"
  shows "\<exists>w1 r1 more.
           stream_loop env a (emit w [ContainerLogs container True]) (fst (logs_stream env))
             [] None = (w1, r1)
         \<and> trace w' = trace w1 @ more"
  using assms
proof (cases rule: pump_cases)
  case (stream_raised e)
  then show ?thesis by auto
next
  case (stream_broke evs tok e)
  then show ?thesis by auto
next
  case (drained w1 evs tok)
  from drained(3) have "\<exists>more. trace w' = trace w1 @ more"
  proof (cases rule: drain_and_push_cases)
    case (read_failed e)
    then show ?thesis by (simp add: emit_def)
  next
    case (read_not_empty out)
    then show ?thesis by (simp add: emit_def)
  next
    case all_sent
    then show ?thesis by (simp add: emit_def)
  next
    case (pushed r')
    from push_new [OF pushed(3,2)] show ?thesis by (auto simp: emit_def)
  qed
  with drained(1) show ?thesis by blast
qed

lemma pump_threaded:
  assumes "pump env a w container = (w', r)"
      and "threaded c0 (put_calls (trace w))"
      and "held c0 (put_calls (trace w)) = None"
  shows "threaded c0 (put_calls (trace w'))"
proof -
  have start: "threaded c0 (put_calls (trace (emit w [ContainerLogs container True])))"
    "held c0 (put_calls (trace (emit w [ContainerLogs container True]))) = None"
    using assms(2,3) by (simp_all add: emit_def put_calls_append)
  from assms(1) show ?thesis
  proof (cases rule: pump_cases)
    case (stream_raised e)
    from stream_loop_threaded [OF stream_raised(1) start] show ?thesis by simp
  next
    case (stream_broke evs tok e)
    from stream_loop_threaded [OF stream_broke(1) start] show ?thesis by simp
  next
    case (drained w1 evs tok)
    from stream_loop_threaded [OF drained(1) start]
    have th: "threaded c0 (put_calls (trace (emit w1 [ContainerLogs container False])))"
      "held c0 (put_calls (trace (emit w1 [ContainerLogs container False]))) = tok"
      by (simp_all add: emit_def put_calls_append)
    from drained(3) show ?thesis
    proof (cases rule: drain_and_push_cases)
      case (read_failed e)
      with th show ?thesis by simp
    next
      case (read_not_empty out)
      with th show ?thesis by simp
    next
      case all_sent
      with th show ?thesis by simp
    next
      case (pushed r')
      from push_threaded [OF pushed(3) th] show ?thesis by simp
    qed
  qed
qed

text \<open>
  The batches handed to the sink by the streaming and draining code are a prefix of the
  accepted streamed lines, whatever the second read returns: it adds no event, and no
  line is handed over twice.
\<close>

lemma pump_prefix:
  assumes "pump env a w container = (w', r)"
  shows "\<exists>new pending. trace w' = trace w @ new
           \<and> messages_of (fst (logs_stream env))
               = map message (concat (submitted new)) @ pending"
proof -
  have logs: "submitted [ContainerLogs container b] = []" for b
    by (simp add: submitted_def)
  have streamed: "\<exists>new pending. trace w' = trace w @ new
           \<and> messages_of (fst (logs_stream env))
               = map message (concat (submitted new)) @ pending"
    if "stream_loop env a (emit w [ContainerLogs container True]) (fst (logs_stream env))
         [] None = (w1, r1)"
      and "trace w' = trace w1 \<or> trace w' = trace w1 @ [ContainerLogs container False]"
    for w1 r1
  proof -
    from stream_loop_prefix [OF that(1)] obtain new pending where new:
      "trace w1 = trace w @ [ContainerLogs container True] @ new"
      "messages_of (fst (logs_stream env)) = map message (concat (submitted new)) @ pending"
      by (auto simp: emit_def)
    from that(2) show ?thesis
    proof
      assume "trace w' = trace w1"
      with new show ?thesis
        by (intro exI [of _ "[ContainerLogs container True] @ new"] exI [of _ pending])
           (simp add: submitted_append logs del: append.simps)
    next
      assume "trace w' = trace w1 @ [ContainerLogs container False]"
      with new show ?thesis
        by (intro exI [of _ "[ContainerLogs container True] @ new @ [ContainerLogs container False]"]
              exI [of _ pending])
           (simp add: submitted_append logs del: append.simps)
    qed
  qed
  from assms show ?thesis
  proof (cases rule: pump_cases)
    case (stream_raised e)
    from streamed [OF stream_raised(1)] show ?thesis by simp
  next
    case (stream_broke evs tok e)
    from streamed [OF stream_broke(1)] show ?thesis by simp
  next
    case (drained w1 evs tok)
    from drained(3) show ?thesis
    proof (cases rule: drain_and_push_cases)
      case (read_failed e)
      with streamed [OF drained(1)] show ?thesis by (simp add: emit_def)
    next
      case (read_not_empty out)
      with streamed [OF drained(1)] show ?thesis by (simp add: emit_def)
    next
      case all_sent
      with streamed [OF drained(1)] show ?thesis by (simp add: emit_def)
    next
      case (pushed r')
      from stream_loop_counts [OF drained(1)] obtain new where new:
        "trace w1 = trace w @ [ContainerLogs container True] @ new"
        "messages_of (fst (logs_stream env)) = map message (concat (submitted new) @ evs)"
        by (auto simp: emit_def)
      from push_new [OF pushed(3,2)] obtain new2 where new2:
        "trace w' = trace w1 @ [ContainerLogs container False] @ new2"
        "submitted new2 = [evs] \<or> submitted new2 = []"
        by (auto simp: emit_def)
      let ?all = "[ContainerLogs container True] @ new @ [ContainerLogs container False] @ new2"
      from new2(2) show ?thesis
      proof
        assume "submitted new2 = [evs]"
        with new new2(1) show ?thesis
          by (intro exI [of _ ?all] exI [of _ "[]"])
             (simp add: submitted_append logs del: append.simps)
      next
        assume "submitted new2 = []"
        with new new2(1) show ?thesis
          by (intro exI [of _ ?all] exI [of _ "map message evs"])
             (simp add: submitted_append logs del: append.simps)
      qed
    qed
  qed
qed

text \<open>
  Among the calls of the sink that a run makes, only the last can have a reply after
  which \<open>push_log_events\<close> raises: such an exception ends the streaming and draining
  code.
\<close>

lemma not_fatal_throttled: "\<not> fatal throttled"
  by (simp add: throttled_def)

lemma settle_fatal: "snd (settle reply tok) = Inr x \<Longrightarrow> \<not> fatal reply"
  by (cases "(reply, tok)" rule: settle.cases) auto

lemma list_all_butlast: "list_all P xs \<Longrightarrow> list_all P (butlast xs)"
  by (auto simp: list_all_iff dest: in_set_butlastD)

lemma list_all_butlast_append:
  "list_all P xs \<Longrightarrow> list_all P (butlast ys) \<Longrightarrow> list_all P (butlast (xs @ ys))"
  by (simp add: butlast_append list_all_butlast)

lemma push_fatal:
  assumes "push_log_events env room w g s evs tok = (w', r)"
  shows "\<exists>new. trace w' = trace w @ new
           \<and> list_all (\<lambda>call. \<not> fatal (snd call)) (butlast (put_calls new))
           \<and> (\<forall>x. r = Inr x \<longrightarrow> list_all (\<lambda>call. \<not> fatal (snd call)) (put_calls new))"
proof (cases evs)
  case Nil
  with assms show ?thesis by (intro exI [of _ "[]"]) simp
next
  case (Cons ev evs')
  from assms [unfolded Cons] show ?thesis
  proof (cases rule: push_cases)
    case (settled K)
    let ?kw = "kwargs_of g s (ev # evs') tok"
    let ?reply = "put_log_events_reply env (puts w + K)"
    let ?new = "concat (replicate K (backoff ?kw)) @ PutLogEvents ?kw ?reply
                  # fst (settle ?reply tok)"
    have calls: "put_calls ?new = replicate K (?kw, throttled) @ [(?kw, ?reply)]"
      by (simp add: put_calls_append put_calls_backoffs put_calls_settle)
    have "list_all (\<lambda>call. \<not> fatal (snd call)) (butlast (put_calls ?new))"
      unfolding calls by (simp add: butlast_append list_all_iff not_fatal_throttled)
    moreover have "list_all (\<lambda>call. \<not> fatal (snd call)) (put_calls ?new)" if "r = Inr x" for x
      unfolding calls using settle_fatal [of ?reply tok x] that settled(5)
      by (simp add: list_all_iff not_fatal_throttled)
    ultimately show ?thesis
      by (intro exI [of _ ?new]) (simp add: settled(4))
  next
    case exhausted
    let ?kw = "kwargs_of g s (ev # evs') tok"
    let ?new = "concat (replicate (Suc room) (backoff ?kw))"
    have "list_all (\<lambda>call. \<not> fatal (snd call)) (put_calls ?new)"
      by (simp add: put_calls_backoffs list_all_iff not_fatal_throttled
          del: replicate.simps concat.simps)
    with list_all_butlast [OF this] show ?thesis
      by (intro exI [of _ ?new]) (simp add: exhausted(2) del: replicate.simps concat.simps)
  qed
qed

lemma stream_loop_fatal:
  assumes "stream_loop env a w lines evs tok = (w', r)"
  shows "\<exists>new. trace w' = trace w @ new
           \<and> list_all (\<lambda>call. \<not> fatal (snd call)) (butlast (put_calls new))
           \<and> (\<forall>x. r = Inr x \<longrightarrow> list_all (\<lambda>call. \<not> fatal (snd call)) (put_calls new))"
  using assms
proof (induction lines arbitrary: w evs tok)
  case Nil
  then show ?case by (intro exI [of _ "[]"]) auto
next
  case (Cons line rest)
  from Cons.prems show ?case
  proof (cases rule: stream_loop_Cons_cases)
    case undecodable
    then show ?thesis by (intro exI [of _ "[]"]) simp
  next
    case (blank decoded)
    from Cons.IH [OF blank(3)] show ?thesis .
  next
    case (kept decoded)
    from Cons.IH [OF kept(4)] show ?thesis by simp
  next
    case (raised decoded e)
    from push_fatal [OF raised(4)] raised(5) show ?thesis by auto
  next
    case (flushed decoded w2 tok1)
    from push_fatal [OF flushed(4)] obtain new1 where new1:
      "trace w2 = trace w @ new1"
      "list_all (\<lambda>call. \<not> fatal (snd call)) (put_calls new1)" by auto
    from Cons.IH [OF flushed(5)] obtain new2 where new2:
      "trace w' = trace w2 @ new2"
      "list_all (\<lambda>call. \<not> fatal (snd call)) (butlast (put_calls new2))"
      "\<forall>x. r = Inr x \<longrightarrow> list_all (\<lambda>call. \<not> fatal (snd call)) (put_calls new2)" by auto
    from new1 new2 list_all_butlast_append [OF new1(2) new2(2)] show ?thesis
      by (intro exI [of _ "new1 @ new2"]) (simp add: put_calls_append)
  qed
qed

lemma pump_fatal:
  assumes "pump env a w container = (w', r)"
  shows "\<exists>new. trace w' = trace w @ new
           \<and> list_all (\<lambda>call. \<not> fatal (snd call)) (butlast (put_calls new))"
proof -
  have streamed: "\<exists>new. trace w1 = trace w @ [ContainerLogs container True] @ new
           \<and> list_all (\<lambda>call. \<not> fatal (snd call)) (butlast (put_calls new))
           \<and> (\<forall>x. r1 = Inr x \<longrightarrow> list_all (\<lambda>call. \<not> fatal (snd call)) (put_calls new))"
    if "stream_loop env a (emit w [ContainerLogs container True]) (fst (logs_stream env))
         [] None = (w1, r1)" for w1 r1
    using stream_loop_fatal [OF that] by (simp add: emit_def)
  from assms show ?thesis
  proof (cases rule: pump_cases)
    case (stream_raised e)
    from streamed [OF stream_raised(1)] obtain new where
      "trace w' = trace w @ [ContainerLogs container True] @ new"
      "list_all (\<lambda>call. \<not> fatal (snd call)) (butlast (put_calls new))" by blast
    then show ?thesis
      by (intro exI [of _ "[ContainerLogs container True] @ new"])
         (simp add: put_calls_append)
  next
    case (stream_broke evs tok e)
    from streamed [OF stream_broke(1)] obtain new where
      "trace w' = trace w @ [ContainerLogs container True] @ new"
      "list_all (\<lambda>call. \<not> fatal (snd call)) (butlast (put_calls new))" by blast
    then show ?thesis
      by (intro exI [of _ "[ContainerLogs container True] @ new"])
         (simp add: put_calls_append)
  next
    case (drained w1 evs tok)
    from streamed [OF drained(1)] obtain new where new:
      "trace w1 = trace w @ [ContainerLogs container True] @ new"
      "list_all (\<lambda>call. \<not> fatal (snd call)) (put_calls new)" by blast
    have only_read: ?thesis if "w' = emit w1 [ContainerLogs container False]"
      using new list_all_butlast [OF new(2)] that
      by (intro exI [of _ "[ContainerLogs container True] @ new @ [ContainerLogs container False]"])
         (simp add: put_calls_append emit_def)
    from drained(3) show ?thesis
    proof (cases rule: drain_and_push_cases)
      case (read_failed e)
      with only_read show ?thesis by simp
    next
      case (read_not_empty out)
      with only_read show ?thesis by simp
    next
      case all_sent
      with only_read show ?thesis by simp
    next
      case (pushed r')
      from push_fatal [OF pushed(3)] obtain new2 where new2:
        "trace w' = trace w1 @ [ContainerLogs container False] @ new2"
        "list_all (\<lambda>call. \<not> fatal (snd call)) (butlast (put_calls new2))"
        by (auto simp: emit_def)
      from new new2 list_all_butlast_append [OF new(2) new2(2)] show ?thesis
        by (intro exI [of _ "[ContainerLogs container True] @ new
                               @ [ContainerLogs container False] @ new2"])
           (simp add: put_calls_append)
    qed
  qed
qed

section \<open>Properties of main\<close>

lemma pump_and_cleanup_result:
  assumes "pump_and_cleanup env a w container = (w', r')"
  shows "\<exists>wp rp. pump env a w container = (wp, rp)
           \<and> trace w' = trace wp
                 @ (case rp of
                      Inl e \<Rightarrow> if is_APIError e
                               then [Log ERROR ''Docker API error: '' (Some e)] else []
                    | Inr u \<Rightarrow> [])
                 @ ContainerStop container (stop_reply env)
                 # (case stop_reply env of
                      None \<Rightarrow> [ContainerRemove container (remove_reply env)]
                    | Some e \<Rightarrow> [])
           \<and> r' = (case stop_reply env of
                      Some e \<Rightarrow> Inl e
                    | None \<Rightarrow>
                        (case remove_reply env of
                           Some e \<Rightarrow> Inl e
                         | None \<Rightarrow>
                             (case rp of
                                Inl e \<Rightarrow> if is_APIError e then Inr () else Inl e
                              | Inr u \<Rightarrow> Inr ())))"
proof -
  obtain wp rp where p: "pump env a w container = (wp, rp)" by force
  have "trace w' = trace wp
          @ (case rp of
               Inl e \<Rightarrow> if is_APIError e
                        then [Log ERROR ''Docker API error: '' (Some e)] else []
             | Inr u \<Rightarrow> [])
          @ ContainerStop container (stop_reply env)
          # (case stop_reply env of
               None \<Rightarrow> [ContainerRemove container (remove_reply env)]
             | Some e \<Rightarrow> [])"
    using assms unfolding pump_and_cleanup_def p
    by (cases rp; cases "stop_reply env"; cases "remove_reply env")
       (auto simp: Let_def emit_def split: if_splits)
  moreover have "r' = (case stop_reply env of
                      Some e \<Rightarrow> Inl e
                    | None \<Rightarrow>
                        (case remove_reply env of
                           Some e \<Rightarrow> Inl e
                         | None \<Rightarrow>
                             (case rp of
                                Inl e \<Rightarrow> if is_APIError e then Inr () else Inl e
                              | Inr u \<Rightarrow> Inr ())))"
    using assms unfolding pump_and_cleanup_def p
    by (cases rp; cases "stop_reply env"; cases "remove_reply env")
       (auto simp: Let_def split: if_splits)
  ultimately show ?thesis using p by blast
qed

lemma pump_and_cleanup_shape:
  assumes "pump_and_cleanup env a w container = (w', r)"
  shows "\<exists>w1 r1. pump env a w container = (w1, r1)
           \<and> trace w' = trace w1
                 @ (case r1 of
                      Inl e \<Rightarrow> if is_APIError e
                               then [Log ERROR ''Docker API error: '' (Some e)] else []
                    | Inr u \<Rightarrow> [])
                 @ ContainerStop container (stop_reply env)
                 # (case stop_reply env of
                      None \<Rightarrow> [ContainerRemove container (remove_reply env)]
                    | Some e \<Rightarrow> [])"
  using pump_and_cleanup_result [OF assms] by blast

lemma pump_and_cleanup_put_calls:
  assumes "pump_and_cleanup env a w container = (w', r)"
  shows "\<exists>w1 r1. pump env a w container = (w1, r1)
           \<and> put_calls (trace w') = put_calls (trace w1)"
proof -
  from pump_and_cleanup_shape [OF assms] obtain w1 r1 where
    p: "pump env a w container = (w1, r1)"
    and t: "trace w' = trace w1
              @ (case r1 of
                   Inl e \<Rightarrow> if is_APIError e
                            then [Log ERROR ''Docker API error: '' (Some e)] else []
                 | Inr u \<Rightarrow> [])
              @ ContainerStop container (stop_reply env)
              # (case stop_reply env of
                   None \<Rightarrow> [ContainerRemove container (remove_reply env)]
                 | Some e \<Rightarrow> [])"
    by blast
  have "put_calls (trace w') = put_calls (trace w1)"
    unfolding t by (simp add: put_calls_append split: sum.splits option.splits)
  with p show ?thesis by blast
qed

lemma pump_and_cleanup_threaded:
  assumes "pump_and_cleanup env a w container = (w', r)"
      and "threaded c0 (put_calls (trace w))"
      and "held c0 (put_calls (trace w)) = None"
  shows "threaded c0 (put_calls (trace w'))"
proof -
  from pump_and_cleanup_put_calls [OF assms(1)] obtain w1 r1 where
    "pump env a w container = (w1, r1)" "put_calls (trace w') = put_calls (trace w1)"
    by blast
  with pump_threaded [OF this(1) assms(2,3)] show ?thesis by simp
qed

lemma quiet_append: "quiet (xs @ ys) = (quiet xs \<and> quiet ys)"
  by (auto simp: quiet_def cleanup_calls_append acquired_append put_calls_append)

lemma create_log_group_frame:
  assumes "create_log_group env w name = (w', r)"
  shows "\<exists>pre. trace w' = trace w @ pre \<and> quiet pre \<and> puts w' = puts w"
  using assms unfolding create_log_group_def
  by (auto simp: Let_def emit_def quiet_def cleanup_calls_def split: option.splits if_splits)

lemma create_log_stream_frame:
  assumes "create_log_stream env w grp name = (w', r)"
  shows "\<exists>pre. trace w' = trace w @ pre \<and> quiet pre \<and> puts w' = puts w"
  using assms unfolding create_log_stream_def
  by (auto simp: Let_def emit_def quiet_def cleanup_calls_def split: option.splits if_splits)

lemma guarded_cases:
  assumes "guarded env a w = (w', r)"
  obtains
    (no_container) pre e where "trace w' = trace w @ pre" "quiet pre" "r = Inl e"
  | (container) container w4 pre where "run_reply env = Inr container"
      "trace w4 = trace w @ pre" "cleanup_calls pre = []" "acquired pre = [container]"
      "put_calls pre = []" "puts w4 = puts w"
      "pump_and_cleanup env a w4 container = (w', r)"
proof -
  obtain w1 r1 where g: "create_log_group env w (aws_cloudwatch_group a) = (w1, r1)"
    by force
  from create_log_group_frame [OF g] obtain pre1 where pre1:
    "trace w1 = trace w @ pre1" "quiet pre1" and p1: "puts w1 = puts w" by blast
  show thesis
  proof (cases r1)
    case (Inl e)
    with assms g have "w' = w1" "r = Inl e" by (simp_all add: guarded_def)
    with pre1 no_container show thesis by blast
  next
    case (Inr u1)
    obtain w2 r2 where s: "create_log_stream env w1 (aws_cloudwatch_group a)
                             (aws_cloudwatch_stream a) = (w2, r2)" by force
    from create_log_stream_frame [OF s] obtain pre2 where pre2:
      "trace w2 = trace w1 @ pre2" "quiet pre2" and p2: "puts w2 = puts w1" by blast
    show thesis
    proof (cases r2)
      case (Inl e)
      with assms g s \<open>r1 = Inr u1\<close> have "w' = w2" "r = Inl e" by (simp_all add: guarded_def)
      moreover from pre1 pre2 have "trace w2 = trace w @ (pre1 @ pre2)" "quiet (pre1 @ pre2)"
        by (simp_all add: quiet_append)
      ultimately show thesis using no_container by blast
    next
      case (Inr u2)
      let ?w3 = "emit w2 [DockerFromEnv (from_env_reply env)]"
      let ?run = "ContainersRun (docker_image a)
                    (''/bin/bash -c '' @ [CHR 0x27] @ bash_command a @ [CHR 0x27])
                    (run_reply env)"
      let ?w4 = "emit ?w3 [?run]"
      show thesis
      proof (cases "from_env_reply env")
        case (Some e)
        with assms g s \<open>r1 = Inr u1\<close> Inr have "w' = ?w3" "r = Inl e"
          by (simp_all add: guarded_def)
        moreover from pre1 pre2
        have "trace ?w3 = trace w @ (pre1 @ pre2 @ [DockerFromEnv (from_env_reply env)])"
          "quiet (pre1 @ pre2 @ [DockerFromEnv (from_env_reply env)])"
          by (simp_all add: quiet_append emit_def) (simp add: quiet_def cleanup_calls_def)
        ultimately show thesis using no_container by blast
      next
        case None
        show thesis
        proof (cases "run_reply env")
          case (Inl e)
          with assms g s \<open>r1 = Inr u1\<close> \<open>r2 = Inr u2\<close> None have "w' = ?w4" "r = Inl e"
            by (simp_all add: guarded_def)
          moreover from pre1 pre2 Inl
          have "trace ?w4 = trace w @ (pre1 @ pre2 @ [DockerFromEnv (from_env_reply env), ?run])"
            "quiet (pre1 @ pre2 @ [DockerFromEnv (from_env_reply env), ?run])"
            by (simp_all add: quiet_append emit_def) (simp add: quiet_def cleanup_calls_def)
          ultimately show thesis using no_container by blast
        next
          case (Inr c)
          with assms g s \<open>r1 = Inr u1\<close> \<open>r2 = Inr u2\<close> None
          have run: "pump_and_cleanup env a ?w4 c = (w', r)"
            by (simp add: guarded_def)
          from pre1 pre2 Inr
          have "trace ?w4 = trace w @ (pre1 @ pre2 @ [DockerFromEnv (from_env_reply env), ?run])"
            "cleanup_calls (pre1 @ pre2 @ [DockerFromEnv (from_env_reply env), ?run]) = []"
            "acquired (pre1 @ pre2 @ [DockerFromEnv (from_env_reply env), ?run]) = [c]"
            "put_calls (pre1 @ pre2 @ [DockerFromEnv (from_env_reply env), ?run]) = []"
            by (simp_all add: quiet_def emit_def cleanup_calls_append acquired_append
                put_calls_append) (simp add: cleanup_calls_def)
          moreover have "puts ?w4 = puts w" by (simp add: emit_def p1 p2)
          ultimately show thesis using Inr run container by blast
        qed
      qed
    qed
  qed
qed

lemma main_cases:
  assumes "main env a = (w, r)"
  obtains
    (client_failed) e where "boto3_client env = Some e"
      "trace w = [Boto3Client (aws_access_key_id a) (aws_secret_access_key a) (aws_region a)
                    (boto3_client env)]"
      "r = Inl e"
  | (returned) w0 w1 r1 where "boto3_client env = None"
      "trace w0 = [Boto3Client (aws_access_key_id a) (aws_secret_access_key a) (aws_region a)
                     (boto3_client env)]"
      "guarded env a w0 = (w1, r1)"
      "trace w = trace w1 @ (case r1 of
                               Inl e \<Rightarrow> [Log ERROR (handler_text e) (Some e)]
                             | Inr u \<Rightarrow> [])"
      "r = Inr ()" "puts w0 = 0"
proof (cases "boto3_client env")
  case (Some e)
  with assms client_failed show thesis by (auto simp: main_def Let_def)
next
  case None
  let ?w0 = "\<lparr>trace = [Boto3Client (aws_access_key_id a) (aws_secret_access_key a)
                           (aws_region a) (boto3_client env)],
               puts = 0, clock_reads = 0\<rparr>"
  obtain w1 r1 where g: "guarded env a ?w0 = (w1, r1)" by force
  have "trace w = trace w1 @ (case r1 of
                                Inl e \<Rightarrow> [Log ERROR (handler_text e) (Some e)]
                              | Inr u \<Rightarrow> [])" "r = Inr ()"
    using assms None g by (cases r1; simp add: main_def Let_def emit_def; fastforce)+
  with returned [OF None _ g] show thesis by simp
qed

text \<open>
  The calls of the sink in a run of \<open>main\<close> are those of its streaming and draining
  code, which starts with no call made.
\<close>

lemma main_pump_cases:
  assumes "main env a = (w, r)"
  obtains
    (no_container) "put_calls (trace w) = []" "acquired (trace w) = []"
  | (container) container w4 wp rp where "run_reply env = Inr container"
      "put_calls (trace w4) = []" "puts w4 = 0" "acquired (trace w4) = [container]"
      "cleanup_calls (trace w4) = []"
      "pump env a w4 container = (wp, rp)"
      "put_calls (trace w) = put_calls (trace wp)"
      "submitted (trace w) = submitted (trace wp)"
  using assms
proof (cases rule: main_cases)
  case (client_failed e)
  with no_container show ?thesis by simp
next
  case (returned w0 w1 r1)
  have last: "put_calls (trace w) = put_calls (trace w1)"
    "acquired (trace w) = acquired (trace w1)"
    unfolding returned(4) by (simp_all add: put_calls_append acquired_append split: sum.splits)
  from returned(3) show ?thesis
  proof (cases rule: guarded_cases)
    case (no_container pre e)
    with last have "put_calls (trace w) = []" "acquired (trace w) = []"
      by (simp_all add: put_calls_append acquired_append quiet_def returned(2))
    then show ?thesis by (rule that(1))
  next
    case (container c w4 pre)
    have w4: "put_calls (trace w4) = []" "acquired (trace w4) = [c]"
      "cleanup_calls (trace w4) = []"
      using container(3)
      by (simp_all add: container(2,4,5) returned(2) put_calls_append acquired_append
          cleanup_calls_append) (simp add: cleanup_calls_def)
    from container(6) returned(6) have p4: "puts w4 = 0" by simp
    from pump_and_cleanup_put_calls [OF container(7)] obtain wp rp where
      "pump env a w4 c = (wp, rp)" "put_calls (trace w1) = put_calls (trace wp)" by blast
    with last w4 p4 container(1) that(2) [of c w4 wp rp] show ?thesis
      by (simp add: submitted_def)
  qed
qed

lemma main_threaded:
  assumes "main env a = (w, r)"
  shows "threaded None (put_calls (trace w))"
  using assms
proof (cases rule: main_pump_cases)
  case no_container
  then show ?thesis by simp
next
  case (container c w4 wp rp)
  from pump_threaded [OF container(6), of None] container(2,7) show ?thesis by simp
qed

text \<open>
  In every run of \<open>main\<close>, every call of the sink carries at least one and at most ten
  events, and the batches handed to the sink, one after the other, are a prefix of the
  accepted streamed lines: no line is handed over twice, and the second read adds
  nothing.
\<close>

lemma main_batches:
  assumes "main env a = (w, r)"
  shows "list_all (\<lambda>call. 1 \<le> length (logEvents (fst call))
                              \<and> length (logEvents (fst call)) \<le> 10) (put_calls (trace w))
         \<and> (\<exists>pending. messages_of (fst (logs_stream env))
                          = map message (concat (submitted (trace w))) @ pending)"
  using assms
proof (cases rule: main_pump_cases)
  case no_container
  then show ?thesis by (simp add: submitted_def)
next
  case (container c w4 wp rp)
  from container(2) have s4: "submitted (trace w4) = []" by (simp add: submitted_def)
  from pump_frame [OF container(6)] obtain new where
    "trace wp = trace w4 @ new"
    "list_all (\<lambda>call. 1 \<le> length (logEvents (fst call))
                        \<and> length (logEvents (fst call)) \<le> 10) (put_calls new)" by blast
  with container(2,7)
  have bound: "list_all (\<lambda>call. 1 \<le> length (logEvents (fst call))
                              \<and> length (logEvents (fst call)) \<le> 10) (put_calls (trace w))"
    by (simp add: put_calls_append)
  from pump_prefix [OF container(6)] obtain new pending where
    "trace wp = trace w4 @ new"
    "messages_of (fst (logs_stream env)) = map message (concat (submitted new)) @ pending"
    by blast
  with container(8) s4 have "messages_of (fst (logs_stream env))
                          = map message (concat (submitted (trace w))) @ pending"
    by (simp add: submitted_append)
  with bound show ?thesis by blast
qed

lemma main_fatal_last:
  assumes "main env a = (w, r)"
      and "i < length (put_calls (trace w))"
      and "fatal (snd (put_calls (trace w) ! i))"
  shows "Suc i = length (put_calls (trace w))"
proof -
  have safe: "list_all (\<lambda>call. \<not> fatal (snd call)) (butlast (put_calls (trace w)))"
    using assms(1)
  proof (cases rule: main_pump_cases)
    case no_container
    then show ?thesis by simp
  next
    case (container c w4 wp rp)
    from pump_fatal [OF container(6)] container(2,7) show ?thesis
      by (auto simp: put_calls_append)
  qed
  show ?thesis
  proof (rule ccontr)
    assume "Suc i \<noteq> length (put_calls (trace w))"
    with assms(2) have i: "i < length (butlast (put_calls (trace w)))" by simp
    then have "butlast (put_calls (trace w)) ! i \<in> set (butlast (put_calls (trace w)))"
      by (rule nth_mem)
    with safe have "\<not> fatal (snd (butlast (put_calls (trace w)) ! i))"
      by (simp add: list_all_iff)
    with i assms(3) show False by (simp add: nth_butlast)
  qed
qed

lemma main_three_batches:
  assumes run: "main env a = (w, r)"
      and got: "acquired (trace w) \<noteq> []"
      and dec: "list_all (\<lambda>line. decode_utf8 line \<noteq> None) (fst (logs_stream env))"
      and many: "30 \<le> length (messages_of (fst (logs_stream env)))"
      and r0: "put_log_events_reply env 0 = PutReturns (Some t1)"
      and r1: "put_log_events_reply env 1 = PutRaises (ClientError code)"
      and code: "code \<noteq> ''ThrottlingException''"
      and r2: "put_log_events_reply env 2 \<noteq> throttled"
  shows "map summary (take 3 (put_calls (trace w)))
           = [(aws_cloudwatch_group a, aws_cloudwatch_stream a,
               take 10 (messages_of (fst (logs_stream env))), None, PutReturns (Some t1)),
              (aws_cloudwatch_group a, aws_cloudwatch_stream a,
               take 10 (drop 10 (messages_of (fst (logs_stream env)))),
               (if t1 = [] then None else Some t1), PutRaises (ClientError code)),
              (aws_cloudwatch_group a, aws_cloudwatch_stream a,
               take 10 (drop 20 (messages_of (fst (logs_stream env)))),
               (if t1 = [] then None else Some t1), put_log_events_reply env 2)]"
  using run
proof (cases rule: main_pump_cases)
  case no_container
  with got show ?thesis by simp
next
  case (container c w4 wp rp)
  from pump_stream [OF container(6)] obtain w1 r1' more where s:
    "stream_loop env a (emit w4 [ContainerLogs c True]) (fst (logs_stream env)) [] None
       = (w1, r1')"
    "trace wp = trace w1 @ more" by blast
  have start: "puts (emit w4 [ContainerLogs c True]) = 0"
    "put_calls (trace (emit w4 [ContainerLogs c True])) = []"
    using container(2,3) by (simp_all add: emit_def put_calls_append)
  from stream_loop_three [OF dec many start(1) r0 r1 code r2 s(1)] start(2)
  obtain c1 c2 c3 rest where calls: "put_calls (trace w1) = c1 # c2 # c3 # rest"
    and sums:
    "summary c1 = (aws_cloudwatch_group a, aws_cloudwatch_stream a,
                   take 10 (messages_of (fst (logs_stream env))), None, PutReturns (Some t1))"
    "summary c2 = (aws_cloudwatch_group a, aws_cloudwatch_stream a,
                   take 10 (drop 10 (messages_of (fst (logs_stream env)))),
                   (if t1 = [] then None else Some t1), PutRaises (ClientError code))"
    "summary c3 = (aws_cloudwatch_group a, aws_cloudwatch_stream a,
                   take 10 (drop 20 (messages_of (fst (logs_stream env)))),
                   (if t1 = [] then None else Some t1), put_log_events_reply env 2)"
    by auto
  have "put_calls (trace w) = c1 # c2 # c3 # rest @ put_calls more"
    unfolding container(7) s(2) by (simp add: put_calls_append calls)
  then have "take 3 (put_calls (trace w)) = [c1, c2, c3]"
    by (simp add: numeral_3_eq_3)
  with sums show ?thesis by simp
qed

text \<open>
  \<^verbatim>\<open>boto3.client\<close> is called at line 123, before the outer \<^verbatim>\<open>try\<close>: an exception it
  raises leaves \<open>main\<close>, and nothing else has happened.
\<close>

lemma main_client_failure:
  assumes "boto3_client env = Some e"
  shows "main env a =
           (\<lparr>trace = [Boto3Client (aws_access_key_id a) (aws_secret_access_key a)
                         (aws_region a) (Some e)],
              puts = 0, clock_reads = 0\<rparr>, Inl e)"
  using assms by (simp add: main_def)

section \<open>Evaluating a run\<close>

lemma replicate_numeral_unfold:
  "replicate (numeral k) x = x # replicate (pred_numeral k) x"
  by (simp add: numeral_eq_Suc)

lemmas run_defs = replicate_numeral_unfold main_def guarded_def create_log_group_def create_log_stream_def
  pump_and_cleanup_def pump_def drain_and_push_def emit_def kwargs_of_def truthy_def decode_utf8_def strip_def
  isspace_def continuation_def handler_text_def throttled_def backoff_def
  submitted_def cleanup_calls_def args0_def world0_def env0_def event0_def

section \<open>The claims\<close>

subsection \<open>C1\<close>

text \<open>
  C1. The container prints 25 lines, all of them accepted. Two batches of ten are
  pushed while the lines are streamed. The second read returns the output as one
  \<^verbatim>\<open>bytes\<close> object, the comprehension of lines 169-175 raises \<^verbatim>\<open>AttributeError\<close>
  on its first byte, and the push of lines 178-181 is never reached: after the second
  read nothing happens but the cleanup and the log line of the handler of line 195. The
  last five events are lost.
\<close>

theorem last_events_lost:
  "length (messages_of (fst (logs_stream env25_log))) = 25
   \<and> map length (submitted (trace (fst (main env25_log args0)))) = [10, 10]
   \<and> dropWhile (\<lambda>action. action \<noteq> ContainerLogs ''c1'' False)
        (trace (fst (main env25_log args0)))
       = [ContainerLogs ''c1'' False, ContainerStop ''c1'' None, ContainerRemove ''c1'' None,
          Log ERROR ''Unexpected error: '' (Some (OtherException ''AttributeError''))]
   \<and> snd (main env25_log args0) = Inr ()"
  by (simp add: env25_log_def run_defs, (simp add: Let_def run_defs)?)

subsection \<open>C2\<close>

text \<open>
  C2, amended. In every run of \<open>main\<close>, either no container handle was acquired, and
  then neither \<^verbatim>\<open>container.stop()\<close> nor \<^verbatim>\<open>container.remove()\<close> is called; or one
  handle was acquired, and then \<^verbatim>\<open>stop\<close> is called on it exactly once, followed by
  exactly one call of \<^verbatim>\<open>remove\<close> on it when \<^verbatim>\<open>stop\<close> returned, and by no call of
  \<^verbatim>\<open>remove\<close> when \<^verbatim>\<open>stop\<close> raised.
\<close>

theorem main_cleanup:
  assumes "main env a = (w, r)"
  shows "(acquired (trace w) = [] \<and> cleanup_calls (trace w) = [])
         \<or> (\<exists>container. acquired (trace w) = [container]
               \<and> cleanup_calls (trace w) =
                   ContainerStop container (stop_reply env)
                   # (case stop_reply env of
                        None \<Rightarrow> [ContainerRemove container (remove_reply env)]
                      | Some e \<Rightarrow> []))"
  using assms
proof (cases rule: main_cases)
  case (client_failed e)
  then show ?thesis by (simp add: cleanup_calls_def)
next
  case (returned w0 w1 r1)
  have last: "acquired (trace w) = acquired (trace w1)"
    "cleanup_calls (trace w) = cleanup_calls (trace w1)"
    unfolding returned(4)
    by (simp_all add: acquired_append cleanup_calls_append cleanup_calls_def split: sum.splits)
  have first: "acquired (trace w0) = []" "cleanup_calls (trace w0) = []"
    by (simp_all add: returned(2) cleanup_calls_def)
  from returned(3) show ?thesis
  proof (cases rule: guarded_cases)
    case (no_container pre e)
    then show ?thesis
      by (simp add: last first acquired_append cleanup_calls_append quiet_def)
  next
    case (container c w4 pre)
    from pump_and_cleanup_shape [OF container(7)] obtain wp rp where
      p: "pump env a w4 c = (wp, rp)"
      and t: "trace w1 = trace wp
                @ (case rp of
                     Inl e \<Rightarrow> if is_APIError e
                              then [Log ERROR ''Docker API error: '' (Some e)] else []
                   | Inr u \<Rightarrow> [])
                @ ContainerStop c (stop_reply env)
                # (case stop_reply env of
                     None \<Rightarrow> [ContainerRemove c (remove_reply env)]
                   | Some e \<Rightarrow> [])"
      by blast
    from pump_frame [OF p] obtain new where new:
      "trace wp = trace w4 @ new" "cleanup_calls new = []" "acquired new = []" by blast
    have "acquired (trace w1) = [c]"
      unfolding t new(1) container(2)
      by (simp add: acquired_append first new container split: sum.splits option.splits)
    moreover have "cleanup_calls (trace w1) =
                     ContainerStop c (stop_reply env)
                     # (case stop_reply env of
                          None \<Rightarrow> [ContainerRemove c (remove_reply env)]
                        | Some e \<Rightarrow> [])"
      unfolding t new(1) container(2)
      by (simp add: cleanup_calls_append first new container split: sum.splits option.splits)
         (simp add: cleanup_calls_def)
    ultimately show ?thesis by (simp add: last)
  qed
qed

text \<open>
  Two runs: one that acquires the container \<open>c1\<close> and cleans it up, one that acquires
  none.
\<close>

theorem main_cleanup_witness:
  "(\<exists>w r. main env0 args0 = (w, r)
      \<and> ((acquired (trace w) = [] \<and> cleanup_calls (trace w) = [])
         \<or> (\<exists>container. acquired (trace w) = [container]
               \<and> cleanup_calls (trace w) =
                   ContainerStop container (stop_reply env0)
                   # (case stop_reply env0 of
                        None \<Rightarrow> [ContainerRemove container (remove_reply env0)]
                      | Some e \<Rightarrow> []))))
   \<and> acquired (trace (fst (main env0 args0))) = [''c1'']
   \<and> cleanup_calls (trace (fst (main env0 args0)))
       = [ContainerStop ''c1'' None, ContainerRemove ''c1'' None]
   \<and> acquired (trace (fst (main env_no_container args0))) = []
   \<and> cleanup_calls (trace (fst (main env_no_container args0))) = []"
proof -
  have ev: "acquired (trace (fst (main env0 args0))) = [''c1'']"
    "cleanup_calls (trace (fst (main env0 args0)))
       = [ContainerStop ''c1'' None, ContainerRemove ''c1'' None]"
    "acquired (trace (fst (main env_no_container args0))) = []"
    "cleanup_calls (trace (fst (main env_no_container args0))) = []"
    by (simp_all add: env_no_container_def run_defs, (simp_all add: Let_def run_defs)?)
  obtain w r where h: "main env0 args0 = (w, r)" by force
  from main_cleanup [OF h] h ev show ?thesis by blast
qed

text \<open>
  C2, as stated, fails: when \<^verbatim>\<open>container.stop()\<close> raises, \<^verbatim>\<open>container.remove()\<close>
  is not called on the acquired handle.
\<close>

theorem remove_skipped_when_stop_fails:
  "acquired (trace (fst (main env_stop_fails args0))) = [''c1'']
   \<and> cleanup_calls (trace (fst (main env_stop_fails args0)))
       = [ContainerStop ''c1'' (Some (APIError ''stop''))]"
  by (simp add: env_stop_fails_def run_defs, (simp add: Let_def run_defs)?)

subsection \<open>C3\<close>

text \<open>
  C3, amended. When the sink throttles the first \<open>K\<close> calls for a batch and accepts the
  next one, and the interpreter's stack has room for \<open>K\<close> nested retries,
  \<open>push_log_events\<close> does exactly this: \<open>K\<close> times the call with that batch and that
  cursor, the warning, and a sleep of 2; then one more call with the same batch and
  cursor, which succeeds; the result is the token of that response. The sleep is 2 every
  time, and the code counts no attempts. But every retry is a call of
  \<open>push_log_events\<close> from inside itself (line 108): when the sink throttles once more
  than the stack has room for retries, the call of line 108 raises
  \<^verbatim>\<open>RecursionError\<close>, which leaves \<open>push_log_events\<close>; the batch has been sent that
  many times and accepted never.
\<close>

theorem push_log_events_throttled_then_accepted:
  assumes "log_events \<noteq> []"
  shows "((\<forall>i<K. put_log_events_reply env (puts w + i)
                    = PutRaises (ClientError ''ThrottlingException''))
          \<and> put_log_events_reply env (puts w + K) = PutReturns (Some next_token)
          \<and> K \<le> room
          \<longrightarrow> push_log_events env room w g s log_events tok =
                (w\<lparr>trace := trace w
                      @ concat (replicate K
                          [PutLogEvents
                             \<lparr>logGroupName = g, logStreamName = s, logEvents = log_events,
                              sequenceToken = (if tok = None \<or> tok = Some [] then None else tok)\<rparr>
                             (PutRaises (ClientError ''ThrottlingException'')),
                           Log WARNING ''Throttling encountered, backing off...'' None,
                           Sleep 2])
                      @ [PutLogEvents
                           \<lparr>logGroupName = g, logStreamName = s, logEvents = log_events,
                            sequenceToken = (if tok = None \<or> tok = Some [] then None else tok)\<rparr>
                           (PutReturns (Some next_token))],
                   puts := puts w + K + 1\<rparr>,
                 Inr (Some next_token)))
         \<and> ((\<forall>i\<le>room. put_log_events_reply env (puts w + i)
                       = PutRaises (ClientError ''ThrottlingException''))
          \<longrightarrow> push_log_events env room w g s log_events tok =
                (w\<lparr>trace := trace w
                      @ concat (replicate (Suc room)
                          [PutLogEvents
                             \<lparr>logGroupName = g, logStreamName = s, logEvents = log_events,
                              sequenceToken = (if tok = None \<or> tok = Some [] then None else tok)\<rparr>
                             (PutRaises (ClientError ''ThrottlingException'')),
                           Log WARNING ''Throttling encountered, backing off...'' None,
                           Sleep 2]),
                   puts := puts w + Suc room\<rparr>,
                 Inl (OtherException ''RecursionError'')))"
proof -
  from assms obtain ev evs where evs: "log_events = ev # evs" by (cases log_events) auto
  have accepted: "push_log_events env room w g s log_events tok =
                (w\<lparr>trace := trace w
                      @ concat (replicate K (backoff (kwargs_of g s log_events tok)))
                      @ [PutLogEvents (kwargs_of g s log_events tok)
                           (PutReturns (Some next_token))],
                   puts := puts w + K + 1\<rparr>,
                 Inr (Some next_token))"
    if "(\<forall>i<K. put_log_events_reply env (puts w + i)
                    = PutRaises (ClientError ''ThrottlingException''))
          \<and> put_log_events_reply env (puts w + K) = PutReturns (Some next_token)
          \<and> K \<le> room"
    using push_throttled_K [of K env w next_token room g s ev evs tok] that
    unfolding evs throttled_def by blast
  have out: "push_log_events env room w g s log_events tok =
                (w\<lparr>trace := trace w
                      @ concat (replicate (Suc room) (backoff (kwargs_of g s log_events tok))),
                   puts := puts w + Suc room\<rparr>,
                 Inl (OtherException ''RecursionError''))"
    if "\<forall>i\<le>room. put_log_events_reply env (puts w + i)
                       = PutRaises (ClientError ''ThrottlingException'')"
    using push_throttled_out [of room env w g s ev evs tok] that
    unfolding evs throttled_def by blast
  from accepted out show ?thesis
    unfolding backoff_def throttled_def kwargs_of_explicit by blast
qed

text \<open>
  Two throttled calls and a third that is accepted; and, with room for one retry, two
  throttled calls and \<^verbatim>\<open>RecursionError\<close>.
\<close>

theorem push_log_events_throttled_then_accepted_witness:
  "push_log_events env_throttled (stack_room env_throttled) world0 ''group'' ''stream'' [event0]
     (Some ''cursor'')
   = (\<lparr>trace =
          [PutLogEvents \<lparr>logGroupName = ''group'', logStreamName = ''stream'',
                         logEvents = [event0], sequenceToken = Some ''cursor''\<rparr>
             (PutRaises (ClientError ''ThrottlingException'')),
           Log WARNING ''Throttling encountered, backing off...'' None, Sleep 2,
           PutLogEvents \<lparr>logGroupName = ''group'', logStreamName = ''stream'',
                         logEvents = [event0], sequenceToken = Some ''cursor''\<rparr>
             (PutRaises (ClientError ''ThrottlingException'')),
           Log WARNING ''Throttling encountered, backing off...'' None, Sleep 2,
           PutLogEvents \<lparr>logGroupName = ''group'', logStreamName = ''stream'',
                         logEvents = [event0], sequenceToken = Some ''cursor''\<rparr>
             (PutReturns (Some ''next''))],
        puts = 3, clock_reads = 0\<rparr>,
      Inr (Some ''next''))
   \<and> push_log_events env_no_room (stack_room env_no_room) world0 ''group'' ''stream'' [event0]
       None
   = (\<lparr>trace =
          [PutLogEvents \<lparr>logGroupName = ''group'', logStreamName = ''stream'',
                         logEvents = [event0], sequenceToken = None\<rparr>
             (PutRaises (ClientError ''ThrottlingException'')),
           Log WARNING ''Throttling encountered, backing off...'' None, Sleep 2,
           PutLogEvents \<lparr>logGroupName = ''group'', logStreamName = ''stream'',
                         logEvents = [event0], sequenceToken = None\<rparr>
             (PutRaises (ClientError ''ThrottlingException'')),
           Log WARNING ''Throttling encountered, backing off...'' None, Sleep 2],
        puts = 2, clock_reads = 0\<rparr>,
      Inl (OtherException ''RecursionError''))"
proof -
  have ne: "[event0] \<noteq> []" by simp
  have h: "(\<forall>i<2. put_log_events_reply env_throttled (puts world0 + i)
                    = PutRaises (ClientError ''ThrottlingException''))
          \<and> put_log_events_reply env_throttled (puts world0 + 2) = PutReturns (Some ''next'')
          \<and> 2 \<le> stack_room env_throttled"
    by (simp add: env_throttled_def env0_def world0_def throttled_def)
  have g: "\<forall>i\<le>stack_room env_no_room.
             put_log_events_reply env_no_room (puts world0 + i)
               = PutRaises (ClientError ''ThrottlingException'')"
    by (simp add: env_no_room_def)
  from push_log_events_throttled_then_accepted [OF ne, of 2 env_throttled world0 "''next''"
      "stack_room env_throttled" "''group''" "''stream''" "Some ''cursor''", THEN conjunct1] h
  have first: "push_log_events env_throttled (stack_room env_throttled) world0 ''group''
       ''stream'' [event0] (Some ''cursor'')
   = (\<lparr>trace =
          [PutLogEvents \<lparr>logGroupName = ''group'', logStreamName = ''stream'',
                         logEvents = [event0], sequenceToken = Some ''cursor''\<rparr>
             (PutRaises (ClientError ''ThrottlingException'')),
           Log WARNING ''Throttling encountered, backing off...'' None, Sleep 2,
           PutLogEvents \<lparr>logGroupName = ''group'', logStreamName = ''stream'',
                         logEvents = [event0], sequenceToken = Some ''cursor''\<rparr>
             (PutRaises (ClientError ''ThrottlingException'')),
           Log WARNING ''Throttling encountered, backing off...'' None, Sleep 2,
           PutLogEvents \<lparr>logGroupName = ''group'', logStreamName = ''stream'',
                         logEvents = [event0], sequenceToken = Some ''cursor''\<rparr>
             (PutReturns (Some ''next''))],
        puts = 3, clock_reads = 0\<rparr>,
      Inr (Some ''next''))"
    by (simp add: world0_def numeral_2_eq_2)
  have room: "stack_room env_no_room = Suc 0" by (simp add: env_no_room_def)
  from push_log_events_throttled_then_accepted [OF ne, of 0 env_no_room world0 "''next''"
      "stack_room env_no_room" "''group''" "''stream''" None, THEN conjunct2] g
  have second: "push_log_events env_no_room (stack_room env_no_room) world0 ''group''
       ''stream'' [event0] None
   = (\<lparr>trace =
          [PutLogEvents \<lparr>logGroupName = ''group'', logStreamName = ''stream'',
                         logEvents = [event0], sequenceToken = None\<rparr>
             (PutRaises (ClientError ''ThrottlingException'')),
           Log WARNING ''Throttling encountered, backing off...'' None, Sleep 2,
           PutLogEvents \<lparr>logGroupName = ''group'', logStreamName = ''stream'',
                         logEvents = [event0], sequenceToken = None\<rparr>
             (PutRaises (ClientError ''ThrottlingException'')),
           Log WARNING ''Throttling encountered, backing off...'' None, Sleep 2],
        puts = 2, clock_reads = 0\<rparr>,
      Inl (OtherException ''RecursionError''))"
    by (simp add: world0_def room)
  from first second show ?thesis by (rule conjI)
qed

text \<open>
  C3, as stated, fails: the sink throttles the first thousand calls and would accept the
  next one, which is a case of the claim with \<open>K = 1000\<close>, and the stack has room for 987
  retries. The batch is sent 988 times, the call of line 108 raises \<^verbatim>\<open>RecursionError\<close>,
  and the sink's next cursor is not returned: the call that would have succeeded is never
  made.
\<close>

theorem retries_end_with_recursion_error:
  "list_all (\<lambda>k. put_log_events_reply env_throttled_1000 k
                   = PutRaises (ClientError ''ThrottlingException'')) [0..<1000]
   \<and> put_log_events_reply env_throttled_1000 1000 = PutReturns (Some ''next'')
   \<and> stack_room env_throttled_1000 = 987
   \<and> snd (push_log_events env_throttled_1000 (stack_room env_throttled_1000) world0
            ''group'' ''stream'' [event0] None)
       = Inl (OtherException ''RecursionError'')
   \<and> puts (fst (push_log_events env_throttled_1000 (stack_room env_throttled_1000) world0
                  ''group'' ''stream'' [event0] None)) = 988
   \<and> submitted (trace (fst (push_log_events env_throttled_1000 (stack_room env_throttled_1000)
                               world0 ''group'' ''stream'' [event0] None))) = []"
proof -
  have replies: "list_all (\<lambda>k. put_log_events_reply env_throttled_1000 k
                   = PutRaises (ClientError ''ThrottlingException'')) [0..<1000]"
    "put_log_events_reply env_throttled_1000 1000 = PutReturns (Some ''next'')"
    "stack_room env_throttled_1000 = 987"
    by (simp_all add: env_throttled_1000_def env0_def list_all_iff)
  have "\<forall>i\<le>stack_room env_throttled_1000.
          put_log_events_reply env_throttled_1000 (puts world0 + i) = throttled"
    by (simp add: env_throttled_1000_def env0_def world0_def throttled_def)
  from push_throttled_out [OF this, of "''group''" "''stream''" event0 "[]" None]
  have run: "push_log_events env_throttled_1000 (stack_room env_throttled_1000) world0
               ''group'' ''stream'' [event0] None
             = (world0\<lparr>trace := trace world0
                          @ concat (replicate (Suc (stack_room env_throttled_1000))
                              (backoff (kwargs_of ''group'' ''stream'' [event0] None))),
                        puts := puts world0 + Suc (stack_room env_throttled_1000)\<rparr>,
                Inl (OtherException ''RecursionError''))" .
  have "snd (push_log_events env_throttled_1000 (stack_room env_throttled_1000) world0
            ''group'' ''stream'' [event0] None)
       = Inl (OtherException ''RecursionError'')"
    "puts (fst (push_log_events env_throttled_1000 (stack_room env_throttled_1000) world0
                  ''group'' ''stream'' [event0] None)) = 988"
    "submitted (trace (fst (push_log_events env_throttled_1000 (stack_room env_throttled_1000)
                               world0 ''group'' ''stream'' [event0] None))) = []"
    unfolding run
    by (simp_all add: world0_def replies(3) submitted_backoffs del: replicate.simps concat.simps)
  with replies show ?thesis by blast
qed

subsection \<open>C4\<close>

text \<open>
  C4, amended. When the sink answers a call with a \<open>ClientError\<close> whose code is not
  \<^verbatim>\<open>ThrottlingException\<close>, \<open>push_log_events\<close> logs the error, makes no further call,
  and returns the cursor it was given. When the sink call raises anything else, the
  exception leaves \<open>push_log_events\<close>: no cursor is returned and nothing is logged
  there. In every run of \<open>main\<close> that starts a container whose stream has at least
  thirty accepted lines, where the sink accepts the first batch with token \<open>t1\<close>,
  rejects the second with such a \<open>ClientError\<close> and does not throttle the third, the
  third batch is sent all the same, and like the second it carries \<open>t1\<close>. And in every
  run of \<open>main\<close>, a sink call that raised an exception other than a \<open>ClientError\<close> is
  the last call of the run: no later batch is sent.
\<close>

theorem push_log_events_abandons:
  assumes "log_events \<noteq> []"
      and "put_log_events_reply env (puts w) = PutRaises e"
      and "e \<noteq> ClientError ''ThrottlingException''"
  shows "(is_ClientError e \<longrightarrow>
            push_log_events env room w g s log_events tok =
              (w\<lparr>trace := trace w
                    @ [PutLogEvents
                         \<lparr>logGroupName = g, logStreamName = s, logEvents = log_events,
                          sequenceToken = (if tok = None \<or> tok = Some [] then None else tok)\<rparr>
                         (PutRaises e),
                       Log ERROR ''Failed to push log events: '' (Some e)],
                 puts := Suc (puts w)\<rparr>,
               Inr tok))
         \<and> (\<not> is_ClientError e \<longrightarrow>
            push_log_events env room w g s log_events tok =
              (w\<lparr>trace := trace w
                    @ [PutLogEvents
                         \<lparr>logGroupName = g, logStreamName = s, logEvents = log_events,
                          sequenceToken = (if tok = None \<or> tok = Some [] then None else tok)\<rparr>
                         (PutRaises e)],
                 puts := Suc (puts w)\<rparr>,
               Inl e))
         \<and> (\<forall>env' a w' r' t1 code r3.
               main env' a = (w', r') \<and> acquired (trace w') \<noteq> []
               \<and> list_all (\<lambda>line. decode_utf8 line \<noteq> None) (fst (logs_stream env'))
               \<and> 30 \<le> length (messages_of (fst (logs_stream env')))
               \<and> put_log_events_reply env' 0 = PutReturns (Some t1)
               \<and> put_log_events_reply env' 1 = PutRaises (ClientError code)
               \<and> code \<noteq> ''ThrottlingException''
               \<and> put_log_events_reply env' 2 = r3
               \<and> r3 \<noteq> PutRaises (ClientError ''ThrottlingException'')
               \<longrightarrow> map (\<lambda>call. (logGroupName (fst call), logStreamName (fst call),
                                 map message (logEvents (fst call)),
                                 sequenceToken (fst call), snd call))
                       (take 3 (put_calls (trace w')))
                   = [(aws_cloudwatch_group a, aws_cloudwatch_stream a,
                       take 10 (messages_of (fst (logs_stream env'))), None,
                       PutReturns (Some t1)),
                      (aws_cloudwatch_group a, aws_cloudwatch_stream a,
                       take 10 (drop 10 (messages_of (fst (logs_stream env')))),
                       (if t1 = [] then None else Some t1), PutRaises (ClientError code)),
                      (aws_cloudwatch_group a, aws_cloudwatch_stream a,
                       take 10 (drop 20 (messages_of (fst (logs_stream env')))),
                       (if t1 = [] then None else Some t1), r3)])
         \<and> (\<forall>env' a w' r' i e'.
               main env' a = (w', r') \<and> i < length (put_calls (trace w'))
               \<and> snd (put_calls (trace w') ! i) = PutRaises e' \<and> \<not> is_ClientError e'
               \<longrightarrow> Suc i = length (put_calls (trace w')))"
proof -
  have settled: "put_log_events_reply env (puts w) \<noteq> throttled"
    using assms(2,3) by (simp add: throttled_def)
  note push = push_settled [OF assms(1) settled, of room g s tok, unfolded assms(2)]
  have abandoned: "push_log_events env room w g s log_events tok =
              (w\<lparr>trace := trace w
                    @ [PutLogEvents (kwargs_of g s log_events tok) (PutRaises e),
                       Log ERROR ''Failed to push log events: '' (Some e)],
                 puts := Suc (puts w)\<rparr>,
               Inr tok)" if "is_ClientError e"
    using that unfolding push by (cases e) simp_all
  have raised: "push_log_events env room w g s log_events tok =
              (w\<lparr>trace := trace w
                    @ [PutLogEvents (kwargs_of g s log_events tok) (PutRaises e)],
                 puts := Suc (puts w)\<rparr>,
               Inl e)" if "\<not> is_ClientError e"
    using that unfolding push by (cases e) simp_all
  have three: "map (\<lambda>call. (logGroupName (fst call), logStreamName (fst call),
                                 map message (logEvents (fst call)),
                                 sequenceToken (fst call), snd call))
                       (take 3 (put_calls (trace w')))
                   = [(aws_cloudwatch_group a, aws_cloudwatch_stream a,
                       take 10 (messages_of (fst (logs_stream env'))), None,
                       PutReturns (Some t1)),
                      (aws_cloudwatch_group a, aws_cloudwatch_stream a,
                       take 10 (drop 10 (messages_of (fst (logs_stream env')))),
                       (if t1 = [] then None else Some t1), PutRaises (ClientError code)),
                      (aws_cloudwatch_group a, aws_cloudwatch_stream a,
                       take 10 (drop 20 (messages_of (fst (logs_stream env')))),
                       (if t1 = [] then None else Some t1), r3)]"
    if "main env' a = (w', r') \<and> acquired (trace w') \<noteq> []
               \<and> list_all (\<lambda>line. decode_utf8 line \<noteq> None) (fst (logs_stream env'))
               \<and> 30 \<le> length (messages_of (fst (logs_stream env')))
               \<and> put_log_events_reply env' 0 = PutReturns (Some t1)
               \<and> put_log_events_reply env' 1 = PutRaises (ClientError code)
               \<and> code \<noteq> ''ThrottlingException''
               \<and> put_log_events_reply env' 2 = r3
               \<and> r3 \<noteq> PutRaises (ClientError ''ThrottlingException'')"
    for env' a w' r' t1 code r3
  proof -
    from that have h: "main env' a = (w', r')" "acquired (trace w') \<noteq> []"
      "list_all (\<lambda>line. decode_utf8 line \<noteq> None) (fst (logs_stream env'))"
      "30 \<le> length (messages_of (fst (logs_stream env')))"
      "put_log_events_reply env' 0 = PutReturns (Some t1)"
      "put_log_events_reply env' 1 = PutRaises (ClientError code)"
      "code \<noteq> ''ThrottlingException''"
      "put_log_events_reply env' 2 \<noteq> throttled"
      "put_log_events_reply env' 2 = r3"
      by (simp_all add: throttled_def)
    from main_three_batches [OF h(1-8)] show ?thesis
      unfolding summary_def h(9) .
  qed
  have last: "Suc i = length (put_calls (trace w'))"
    if "main env' a = (w', r') \<and> i < length (put_calls (trace w'))
               \<and> snd (put_calls (trace w') ! i) = PutRaises e' \<and> \<not> is_ClientError e'"
    for env' a w' r' i e'
    using main_fatal_last [of env' a w' r' i] that by simp
  from abandoned raised three last show ?thesis
    unfolding kwargs_of_explicit by blast
qed

text \<open>
  The run of thirty lines in which the sink rejects the second batch with
  \<^verbatim>\<open>InvalidParameterException\<close>: three calls, the second and the third with the token
  of the first response. And the run in which the second call raises
  \<^verbatim>\<open>EndpointConnectionError\<close>: it is the second and last call.
\<close>

theorem push_log_events_abandons_witness:
  "push_log_events env_abandon30 (stack_room env_abandon30) (world0\<lparr>puts := 1\<rparr>)
       ''group'' ''stream'' [event0] (Some ''t1'')
     = (\<lparr>trace = [PutLogEvents \<lparr>logGroupName = ''group'', logStreamName = ''stream'',
                                logEvents = [event0], sequenceToken = Some ''t1''\<rparr>
                     (PutRaises (ClientError ''InvalidParameterException'')),
                   Log ERROR ''Failed to push log events: ''
                     (Some (ClientError ''InvalidParameterException''))],
         puts = 2, clock_reads = 0\<rparr>, Inr (Some ''t1''))
   \<and> push_log_events env_connection_lost (stack_room env_connection_lost)
       (world0\<lparr>puts := 1\<rparr>) ''group'' ''stream'' [event0] (Some ''t1'')
     = (\<lparr>trace = [PutLogEvents \<lparr>logGroupName = ''group'', logStreamName = ''stream'',
                                logEvents = [event0], sequenceToken = Some ''t1''\<rparr>
                     (PutRaises (OtherException ''EndpointConnectionError''))],
         puts = 2, clock_reads = 0\<rparr>, Inl (OtherException ''EndpointConnectionError''))
   \<and> acquired (trace (fst (main env_abandon30 args0))) = [''c1'']
   \<and> list_all (\<lambda>line. decode_utf8 line \<noteq> None) (fst (logs_stream env_abandon30))
   \<and> messages_of (fst (logs_stream env_abandon30)) = replicate 30 [108, 105, 110, 101]
   \<and> map (\<lambda>call. (logGroupName (fst call), logStreamName (fst call),
                    map message (logEvents (fst call)), sequenceToken (fst call), snd call))
        (take 3 (put_calls (trace (fst (main env_abandon30 args0)))))
       = [(''group'', ''stream'', replicate 10 [108, 105, 110, 101], None,
           PutReturns (Some ''t1'')),
          (''group'', ''stream'', replicate 10 [108, 105, 110, 101], Some ''t1'',
           PutRaises (ClientError ''InvalidParameterException'')),
          (''group'', ''stream'', replicate 10 [108, 105, 110, 101], Some ''t1'',
           PutReturns (Some ''t3''))]
   \<and> map snd (put_calls (trace (fst (main env_connection_lost args0))))
       = [PutReturns (Some ''t1''), PutRaises (OtherException ''EndpointConnectionError'')]
   \<and> Suc 1 = length (put_calls (trace (fst (main env_connection_lost args0))))"
proof -
  have ne: "[event0] \<noteq> []" by simp
  have a1: "put_log_events_reply env_abandon30 (puts (world0\<lparr>puts := 1\<rparr>))
              = PutRaises (ClientError ''InvalidParameterException'')"
    "ClientError ''InvalidParameterException'' \<noteq> ClientError ''ThrottlingException''"
    "is_ClientError (ClientError ''InvalidParameterException'')"
    by (simp_all add: env_abandon30_def env30_def env0_def world0_def)
  have a2: "put_log_events_reply env_connection_lost (puts (world0\<lparr>puts := 1\<rparr>))
              = PutRaises (OtherException ''EndpointConnectionError'')"
    "OtherException ''EndpointConnectionError'' \<noteq> ClientError ''ThrottlingException''"
    "\<not> is_ClientError (OtherException ''EndpointConnectionError'')"
    by (simp_all add: env_connection_lost_def env30_def env0_def world0_def)
  from push_log_events_abandons [OF ne a1(1,2), of "stack_room env_abandon30" "''group''"
      "''stream''" "Some ''t1''", THEN conjunct1] a1(3)
  have first: "push_log_events env_abandon30 (stack_room env_abandon30) (world0\<lparr>puts := 1\<rparr>)
       ''group'' ''stream'' [event0] (Some ''t1'')
     = (\<lparr>trace = [PutLogEvents \<lparr>logGroupName = ''group'', logStreamName = ''stream'',
                                logEvents = [event0], sequenceToken = Some ''t1''\<rparr>
                     (PutRaises (ClientError ''InvalidParameterException'')),
                   Log ERROR ''Failed to push log events: ''
                     (Some (ClientError ''InvalidParameterException''))],
         puts = 2, clock_reads = 0\<rparr>, Inr (Some ''t1''))"
    by (simp add: world0_def)
  from push_log_events_abandons [OF ne a2(1,2), of "stack_room env_connection_lost" "''group''"
      "''stream''" "Some ''t1''", THEN conjunct2, THEN conjunct1] a2(3)
  have second: "push_log_events env_connection_lost (stack_room env_connection_lost)
       (world0\<lparr>puts := 1\<rparr>) ''group'' ''stream'' [event0] (Some ''t1'')
     = (\<lparr>trace = [PutLogEvents \<lparr>logGroupName = ''group'', logStreamName = ''stream'',
                                logEvents = [event0], sequenceToken = Some ''t1''\<rparr>
                     (PutRaises (OtherException ''EndpointConnectionError''))],
         puts = 2, clock_reads = 0\<rparr>, Inl (OtherException ''EndpointConnectionError''))"
    by (simp add: world0_def)
  have ev1: "acquired (trace (fst (main env_abandon30 args0))) = [''c1'']"
    by (simp add: env_abandon30_def env30_def run_defs, (simp add: Let_def run_defs)?)
  have ev2: "map snd (put_calls (trace (fst (main env_connection_lost args0))))
       = [PutReturns (Some ''t1''), PutRaises (OtherException ''EndpointConnectionError'')]"
    by (simp add: env_connection_lost_def env30_def run_defs, (simp add: Let_def run_defs)?)
  have lines: "list_all (\<lambda>line. decode_utf8 line \<noteq> None) (fst (logs_stream env_abandon30))"
    "messages_of (fst (logs_stream env_abandon30)) = replicate 30 [108, 105, 110, 101]"
    by (simp_all add: env_abandon30_def env30_def env0_def decode_utf8_def strip_def
        isspace_def replicate_numeral_unfold)
  have replies: "put_log_events_reply env_abandon30 0 = PutReturns (Some ''t1'')"
    "put_log_events_reply env_abandon30 1
       = PutRaises (ClientError ''InvalidParameterException'')"
    "''InvalidParameterException'' \<noteq> ''ThrottlingException''"
    "put_log_events_reply env_abandon30 2 = PutReturns (Some ''t3'')"
    "PutReturns (Some ''t3'') \<noteq> PutRaises (ClientError ''ThrottlingException'')"
    by (simp_all add: env_abandon30_def env30_def env0_def)
  obtain w r where run: "main env_abandon30 args0 = (w, r)" by force
  with ev1 have got: "acquired (trace w) \<noteq> []" by simp
  from lines(2) have many: "30 \<le> length (messages_of (fst (logs_stream env_abandon30)))"
    by simp
  have hyp: "main env_abandon30 args0 = (w, r) \<and> acquired (trace w) \<noteq> []
       \<and> list_all (\<lambda>line. decode_utf8 line \<noteq> None) (fst (logs_stream env_abandon30))
       \<and> 30 \<le> length (messages_of (fst (logs_stream env_abandon30)))
       \<and> put_log_events_reply env_abandon30 0 = PutReturns (Some ''t1'')
       \<and> put_log_events_reply env_abandon30 1
           = PutRaises (ClientError ''InvalidParameterException'')
       \<and> ''InvalidParameterException'' \<noteq> ''ThrottlingException''
       \<and> put_log_events_reply env_abandon30 2 = PutReturns (Some ''t3'')
       \<and> PutReturns (Some ''t3'') \<noteq> PutRaises (ClientError ''ThrottlingException'')"
    using run got lines(1) many replies by (intro conjI)
  have w: "w = fst (main env_abandon30 args0)" by (simp add: run)
  have ten: "take 10 (replicate 30 x) = replicate 10 x"
    "take 10 (drop 10 (replicate 30 x)) = replicate 10 x"
    "take 10 (drop 20 (replicate 30 x)) = replicate 10 x" for x :: str
    by simp_all
  have third: "map (\<lambda>call. (logGroupName (fst call), logStreamName (fst call),
                    map message (logEvents (fst call)), sequenceToken (fst call), snd call))
        (take 3 (put_calls (trace (fst (main env_abandon30 args0)))))
       = [(''group'', ''stream'', replicate 10 [108, 105, 110, 101], None,
           PutReturns (Some ''t1'')),
          (''group'', ''stream'', replicate 10 [108, 105, 110, 101], Some ''t1'',
           PutRaises (ClientError ''InvalidParameterException'')),
          (''group'', ''stream'', replicate 10 [108, 105, 110, 101], Some ''t1'',
           PutReturns (Some ''t3''))]"
    using push_log_events_abandons [OF ne a1(1,2), THEN conjunct2, THEN conjunct2,
      THEN conjunct1, rule_format, OF hyp]
    unfolding lines(2) ten w [symmetric] by (simp add: args0_def)
  obtain w2 r2 where run2: "main env_connection_lost args0 = (w2, r2)" by force
  then have w2: "fst (main env_connection_lost args0) = w2" by simp
  from ev2 have "length (map snd (put_calls (trace w2))) = 2"
    "map snd (put_calls (trace w2)) ! 1 = PutRaises (OtherException ''EndpointConnectionError'')"
    unfolding w2 by simp_all
  then have len: "1 < length (put_calls (trace w2))"
    and at1: "snd (put_calls (trace w2) ! 1)
                = PutRaises (OtherException ''EndpointConnectionError'')"
    by simp_all
  have hyp2: "main env_connection_lost args0 = (w2, r2) \<and> 1 < length (put_calls (trace w2))
       \<and> snd (put_calls (trace w2) ! 1) = PutRaises (OtherException ''EndpointConnectionError'')
       \<and> \<not> is_ClientError (OtherException ''EndpointConnectionError'')"
    using run2 len at1 a2(3) by (intro conjI)
  have fourth: "Suc 1 = length (put_calls (trace (fst (main env_connection_lost args0))))"
    using push_log_events_abandons [OF ne a1(1,2), THEN conjunct2, THEN conjunct2,
      THEN conjunct2, rule_format, OF hyp2]
    unfolding w2 .
  from first second ev1 lines third ev2 fourth show ?thesis by (intro conjI)
qed

text \<open>
  C4, as stated, fails for a failure that is not a \<open>ClientError\<close>. The container prints
  thirty lines, the sink accepts the first batch, and the second call raises
  \<^verbatim>\<open>EndpointConnectionError\<close>: \<open>push_log_events\<close> does not return the cursor but
  raises, the streaming ends, and the third batch is never sent.
\<close>

theorem other_failure_ends_the_run:
  "length (messages_of (fst (logs_stream env_connection_lost))) = 30
   \<and> map (\<lambda>call. (length (logEvents (fst call)), sequenceToken (fst call), snd call))
        (put_calls (trace (fst (main env_connection_lost args0))))
       = [(10, None, PutReturns (Some ''t1'')),
          (10, Some ''t1'', PutRaises (OtherException ''EndpointConnectionError''))]
   \<and> reported (trace (fst (main env_connection_lost args0)))
       = [OtherException ''EndpointConnectionError'']
   \<and> snd (push_log_events env_connection_lost (stack_room env_connection_lost)
            (world0\<lparr>puts := 1\<rparr>) ''group'' ''stream'' [event0] (Some ''t1''))
       = Inl (OtherException ''EndpointConnectionError'')"
  by (simp add: env_connection_lost_def env30_def run_defs, (simp add: Let_def run_defs)?)

subsection \<open>C5\<close>

text \<open>
  C5. In every run of \<open>main\<close> the calls of the sink are threaded from \<^verbatim>\<open>None\<close>: the
  first call is made with the cursor \<^verbatim>\<open>None\<close>, and each later call with the cursor
  that the call before it left. After a call that succeeded this is the token of its
  response; after a call that failed (throttled and repeated, or abandoned) it is the
  cursor that call itself was made with. The cursor reaches the sink as
  \<^verbatim>\<open>sequenceToken\<close> when it is true in Python's sense. The streaming loop assigns the
  result of every push to the held variable, whether the batch was accepted or
  abandoned, so that after the loop the variable is the cursor the last call left. The
  push after the second read is the last thing the run does with the sink: it is made
  with the held cursor, and its value is not assigned (line 179), which no later call
  could notice.
\<close>

theorem main_cursor_threading:
  assumes "main env a = (w, r)"
  shows "threaded None (put_calls (trace w))
         \<and> (\<forall>i. Suc i < length (put_calls (trace w)) \<longrightarrow>
               sequenceToken (fst (put_calls (trace w) ! Suc i))
                 = (let c' = cursor_after (held None (take i (put_calls (trace w))))
                               (snd (put_calls (trace w) ! i))
                    in if truthy c' then c' else None))
         \<and> (\<forall>i t. Suc i < length (put_calls (trace w))
                 \<and> snd (put_calls (trace w) ! i) = PutReturns (Some t) \<longrightarrow>
               sequenceToken (fst (put_calls (trace w) ! Suc i))
                 = (if t = [] then None else Some t))
         \<and> (\<forall>i e. Suc i < length (put_calls (trace w))
                 \<and> snd (put_calls (trace w) ! i) = PutRaises e \<longrightarrow>
               sequenceToken (fst (put_calls (trace w) ! Suc i))
                 = sequenceToken (fst (put_calls (trace w) ! i)))
         \<and> (\<forall>w1 lines evs tok w2 evs' tok'.
               stream_loop env a w1 lines evs tok = (w2, Inr (evs', tok'))
               \<and> threaded None (put_calls (trace w1)) \<and> held None (put_calls (trace w1)) = tok
               \<longrightarrow> tok' = held None (put_calls (trace w2)))"
proof -
  let ?calls = "put_calls (trace w)"
  have th: "threaded None ?calls" by (rule main_threaded [OF assms])
  have ok: "sequenceToken (fst (?calls ! Suc i)) = (if t = [] then None else Some t)"
    if "Suc i < length ?calls \<and> snd (?calls ! i) = PutReturns (Some t)" for i t
    using threaded_pairs [OF th, of i] that by (simp add: truthy_def)
  have failed: "sequenceToken (fst (?calls ! Suc i)) = sequenceToken (fst (?calls ! i))"
    if "Suc i < length ?calls \<and> snd (?calls ! i) = PutRaises e" for i e
    using threaded_pairs [OF th, of i] threaded_nth [OF th, of i] that by simp
  have loop: "tok' = held None (put_calls (trace w2))"
    if "stream_loop env a w1 lines evs tok = (w2, Inr (evs', tok'))
        \<and> threaded None (put_calls (trace w1)) \<and> held None (put_calls (trace w1)) = tok"
    for w1 lines evs tok w2 evs' tok'
    using stream_loop_threaded [of env a w1 lines evs tok w2 "Inr (evs', tok')" None] that
    by simp
  from th threaded_pairs [OF th] ok failed loop show ?thesis by blast
qed

text \<open>
  The run of 30 lines: three calls, the first without a token, the second with the
  token of the first response, the third with the token of the second.
\<close>

theorem main_cursor_threading_witness:
  "(\<exists>w r. main env30 args0 = (w, r) \<and> threaded None (put_calls (trace w)))
   \<and> map (\<lambda>call. (length (logEvents (fst call)), sequenceToken (fst call), snd call))
        (put_calls (trace (fst (main env30 args0))))
       = [(10, None, PutReturns (Some ''t'')),
          (10, Some ''t'', PutReturns (Some ''t+'')),
          (10, Some ''t+'', PutReturns (Some ''t++''))]"
proof -
  have ev: "map (\<lambda>call. (length (logEvents (fst call)), sequenceToken (fst call), snd call))
        (put_calls (trace (fst (main env30 args0))))
       = [(10, None, PutReturns (Some ''t'')),
          (10, Some ''t'', PutReturns (Some ''t+'')),
          (10, Some ''t+'', PutReturns (Some ''t++''))]"
    by (simp add: env30_def run_defs, (simp add: Let_def run_defs)?)
  obtain w r where h: "main env30 args0 = (w, r)" by force
  from main_cursor_threading [OF h] h ev show ?thesis by blast
qed

subsection \<open>C6\<close>

text \<open>
  C6. Called with an empty batch, \<open>push_log_events\<close> returns the cursor it was given
  and leaves the world as it was: no call of \<^verbatim>\<open>put_log_events\<close>, no log line, no
  sleep. This holds for every cursor, and whatever room the stack has.
\<close>

theorem push_log_events_empty_noop:
  "push_log_events env room w log_group_name log_stream_name [] sequence_token =
     (w, Inr sequence_token)"
  by simp

subsection \<open>C7\<close>

text \<open>
  C7. The stream has yielded the line \<open>a\<close> when it ends, and the container has printed
  the line \<open>b\<close> after it. The second read, which is there to capture \<open>b\<close>, returns one
  \<^verbatim>\<open>bytes\<close> object; the comprehension of lines 169-175 takes its first byte for a
  line and raises \<^verbatim>\<open>AttributeError\<close>. Nothing of the second read becomes an event,
  and the event of \<open>a\<close>, still in the buffer, is not pushed either: the run makes no call
  of the sink at all.
\<close>

theorem second_read_captures_nothing:
  "messages_of (fst (logs_stream env_buffered)) = [[97]]
   \<and> put_calls (trace (fst (main env_buffered args0))) = []
   \<and> dropWhile (\<lambda>action. action \<noteq> ContainerLogs ''c1'' True)
        (trace (fst (main env_buffered args0)))
       = [ContainerLogs ''c1'' True, ContainerLogs ''c1'' False,
          ContainerStop ''c1'' None, ContainerRemove ''c1'' None,
          Log ERROR ''Unexpected error: '' (Some (OtherException ''AttributeError''))]
   \<and> snd (main env_buffered args0) = Inr ()"
  by (simp add: env_buffered_def run_defs, (simp add: Let_def run_defs)?)

subsection \<open>C8\<close>

text \<open>
  C8, amended, for the streaming pass. A blank line has no effect: the loop goes on as
  if the line were not there. A line that is not valid UTF-8 raises
  \<^verbatim>\<open>UnicodeDecodeError\<close>, which ends the loop, and produces no event. A line that
  decodes and is not blank produces exactly one event, with the stripped text as message
  and the next clock reading as timestamp: the event is appended to the buffer, and the
  buffer is pushed when this makes it ten events long. So a streaming pass that
  completes has handed to the sink or left in the buffer one event more for each line
  that is not blank.
\<close>

theorem line_filtering:
  "(blank line \<longrightarrow>
      stream_loop env a w (line # rest) evs tok = stream_loop env a w rest evs tok)
   \<and> (decode_utf8 line = None \<longrightarrow>
      stream_loop env a w (line # rest) evs tok
        = (w, Inl (OtherException ''UnicodeDecodeError'')))
   \<and> (decode_utf8 line = Some decoded \<and> \<not> blank line \<longrightarrow>
      (length evs + 1 < 10 \<longrightarrow>
         stream_loop env a w (line # rest) evs tok
           = stream_loop env a (w\<lparr>clock_reads := Suc (clock_reads w)\<rparr>) rest
               (evs @ [\<lparr>timestamp = now env (clock_reads w), message = strip decoded\<rparr>]) tok)
      \<and> (10 \<le> length evs + 1 \<longrightarrow>
         stream_loop env a w (line # rest) evs tok
           = (case push_log_events env (stack_room env) (w\<lparr>clock_reads := Suc (clock_reads w)\<rparr>)
                     (aws_cloudwatch_group a) (aws_cloudwatch_stream a)
                     (evs @ [\<lparr>timestamp = now env (clock_reads w), message = strip decoded\<rparr>])
                     tok of
                (w2, Inl e) \<Rightarrow> (w2, Inl e)
              | (w2, Inr tok1) \<Rightarrow> stream_loop env a w2 rest [] tok1)))
   \<and> (stream_loop env a w lines evs tok = (w', Inr (evs', tok')) \<and> length evs < 10 \<longrightarrow>
      (\<exists>new. trace w' = trace w @ new
         \<and> length (concat (submitted new) @ evs')
             = length evs + length (filter (\<lambda>line. \<not> blank line) lines)))"
proof (intro conjI impI)
  assume "blank line"
  then show "stream_loop env a w (line # rest) evs tok = stream_loop env a w rest evs tok"
    by (auto simp: blank_def strip_Nil_iff split: option.splits)
next
  assume "decode_utf8 line = None"
  then show "stream_loop env a w (line # rest) evs tok
        = (w, Inl (OtherException ''UnicodeDecodeError''))"
    by simp
next
  assume h: "decode_utf8 line = Some decoded \<and> \<not> blank line"
  then have nb: "strip decoded \<noteq> []" by (auto simp: blank_def strip_Nil_iff)
  {
    assume "length evs + 1 < 10"
    with h nb show "stream_loop env a w (line # rest) evs tok
           = stream_loop env a (w\<lparr>clock_reads := Suc (clock_reads w)\<rparr>) rest
               (evs @ [\<lparr>timestamp = now env (clock_reads w), message = strip decoded\<rparr>]) tok"
      by (simp add: Let_def)
  next
    assume "10 \<le> length evs + 1"
    with h nb show "stream_loop env a w (line # rest) evs tok
           = (case push_log_events env (stack_room env) (w\<lparr>clock_reads := Suc (clock_reads w)\<rparr>)
                     (aws_cloudwatch_group a) (aws_cloudwatch_stream a)
                     (evs @ [\<lparr>timestamp = now env (clock_reads w), message = strip decoded\<rparr>])
                     tok of
                (w2, Inl e) \<Rightarrow> (w2, Inl e)
              | (w2, Inr tok1) \<Rightarrow> stream_loop env a w2 rest [] tok1)"
      by (simp add: Let_def)
  }
next
  assume h: "stream_loop env a w lines evs tok = (w', Inr (evs', tok')) \<and> length evs < 10"
  from stream_loop_batches [OF h [THEN conjunct1] h [THEN conjunct2]] obtain new where
    "trace w' = trace w @ new"
    "map message (concat (submitted new) @ evs') = map message evs @ messages_of lines"
    by blast
  moreover from this(2) have "length (concat (submitted new) @ evs')
                                = length (map message evs @ messages_of lines)"
    by (metis length_map)
  ultimately show "\<exists>new. trace w' = trace w @ new
         \<and> length (concat (submitted new) @ evs')
             = length evs + length (filter (\<lambda>line. \<not> blank line) lines)"
    using stream_loop_decodable [OF h [THEN conjunct1]] by auto
qed

text \<open>
  A blank line followed by the line \<open>hi\<close>: one event, for \<open>hi\<close>.
\<close>

theorem line_filtering_witness:
  "blank ''  ''
   \<and> stream_loop env0 args0 world0 [''  '', ''hi''] [] None
       = stream_loop env0 args0 world0 [''hi''] [] None
   \<and> decode_utf8 ''hi'' = Some [104, 105] \<and> \<not> blank ''hi''
   \<and> stream_loop env0 args0 world0 [''hi''] [] None
       = (world0\<lparr>clock_reads := Suc (clock_reads world0)\<rparr>,
          Inr ([\<lparr>timestamp = now env0 (clock_reads world0), message = [104, 105]\<rparr>], None))
   \<and> stream_loop env0 args0 world0 [''  '', ''hi''] [] None
       = (\<lparr>trace = [], puts = 0, clock_reads = 1\<rparr>,
          Inr ([\<lparr>timestamp = 0, message = [104, 105]\<rparr>], None))"
proof -
  have b: "blank ''  ''"
    by (simp add: blank_def decode_utf8_def isspace_def)
  have d: "decode_utf8 ''hi'' = Some [104, 105] \<and> \<not> blank ''hi''"
    by (simp add: blank_def decode_utf8_def isspace_def)
  have short: "length ([] :: log_event list) + 1 < 10" by simp
  from line_filtering [where line = "''  ''" and env = env0 and a = args0
      and w = world0 and rest = "[''hi'']" and evs = "[]" and tok = None] b
  have skip: "stream_loop env0 args0 world0 [''  '', ''hi''] [] None
       = stream_loop env0 args0 world0 [''hi''] [] None"
    by blast
  from line_filtering [where line = "''hi''" and env = env0 and a = args0
      and w = world0 and evs = "[]" and tok = None and decoded = "[104, 105]"
      and rest = "[]"] d short
  have "stream_loop env0 args0 world0 [''hi''] [] None
       = stream_loop env0 args0 (world0\<lparr>clock_reads := Suc (clock_reads world0)\<rparr>) []
           ([] @ [\<lparr>timestamp = now env0 (clock_reads world0), message = strip [104, 105]\<rparr>])
           None"
    by blast
  then have one: "stream_loop env0 args0 world0 [''hi''] [] None
       = (world0\<lparr>clock_reads := Suc (clock_reads world0)\<rparr>,
          Inr ([\<lparr>timestamp = now env0 (clock_reads world0), message = [104, 105]\<rparr>], None))"
    by (simp add: strip_def isspace_def)
  then have all: "stream_loop env0 args0 world0 [''  '', ''hi''] [] None
       = (\<lparr>trace = [], puts = 0, clock_reads = 1\<rparr>,
          Inr ([\<lparr>timestamp = 0, message = [104, 105]\<rparr>], None))"
    unfolding skip by (simp add: world0_def env0_def)
  from b d skip one all show ?thesis by blast
qed

text \<open>
  C8, as stated, fails: the line \<^verbatim>\<open>b'\\xff'\<close> is neither empty nor white space, and
  it produces no event.
\<close>

theorem undecodable_line_no_event:
  "\<not> blank [CHR 0xFF]
   \<and> stream_loop env0 args0 world0 [[CHR 0xFF]] [] None
       = (world0, Inl (OtherException ''UnicodeDecodeError''))"
  by (simp add: blank_def decode_utf8_def)

subsection \<open>C9\<close>

text \<open>
  C9, amended. Once \<^verbatim>\<open>boto3.client\<close> has returned, no exception leaves \<open>main\<close>:
  every run ends by returning. An exception that leaves the outer \<^verbatim>\<open>try\<close> body is
  logged by the first handler of lines 191-196 that matches it, as the last action of
  the run. An \<open>APIError\<close> that leaves the streaming and draining code is logged by the
  inner handler; any other exception is passed on after the \<^verbatim>\<open>finally\<close> block, unless
  \<^verbatim>\<open>container.stop()\<close> or \<^verbatim>\<open>container.remove()\<close> raises: then the cleanup
  exception takes its place.
\<close>

theorem main_returns:
  assumes "boto3_client env = None" and "main env a = (w, r)"
  shows "r = Inr ()
         \<and> (\<exists>w0 w1 r1.
               trace w0 = [Boto3Client (aws_access_key_id a) (aws_secret_access_key a)
                             (aws_region a) None]
               \<and> guarded env a w0 = (w1, r1)
               \<and> trace w = trace w1 @ (case r1 of
                                         Inl e \<Rightarrow> [Log ERROR (handler_text e) (Some e)]
                                       | Inr u \<Rightarrow> []))
         \<and> (\<forall>w4 container w' r'.
               pump_and_cleanup env a w4 container = (w', r') \<longrightarrow>
               (\<exists>wp rp. pump env a w4 container = (wp, rp)
                  \<and> trace w' = trace wp
                        @ (case rp of
                             Inl e \<Rightarrow> if is_APIError e
                                      then [Log ERROR ''Docker API error: '' (Some e)] else []
                           | Inr u \<Rightarrow> [])
                        @ ContainerStop container (stop_reply env)
                        # (case stop_reply env of
                             None \<Rightarrow> [ContainerRemove container (remove_reply env)]
                           | Some e \<Rightarrow> [])
                  \<and> r' = (case stop_reply env of
                             Some e \<Rightarrow> Inl e
                           | None \<Rightarrow>
                               (case remove_reply env of
                                  Some e \<Rightarrow> Inl e
                                | None \<Rightarrow>
                                    (case rp of
                                       Inl e \<Rightarrow> if is_APIError e then Inr () else Inl e
                                     | Inr u \<Rightarrow> Inr ())))))"
proof -
  from assms(2) have first: "r = Inr ()
         \<and> (\<exists>w0 w1 r1.
               trace w0 = [Boto3Client (aws_access_key_id a) (aws_secret_access_key a)
                             (aws_region a) None]
               \<and> guarded env a w0 = (w1, r1)
               \<and> trace w = trace w1 @ (case r1 of
                                         Inl e \<Rightarrow> [Log ERROR (handler_text e) (Some e)]
                                       | Inr u \<Rightarrow> []))"
  proof (cases rule: main_cases)
    case (client_failed e)
    with assms(1) show ?thesis by simp
  next
    case (returned w0 w1 r1)
    then show ?thesis using assms(1) by auto
  qed
  with pump_and_cleanup_result show ?thesis by blast
qed

theorem main_returns_witness:
  "(\<exists>w r. boto3_client env_stream_breaks = None
      \<and> main env_stream_breaks args0 = (w, r) \<and> r = Inr ())
   \<and> snd (main env_stream_breaks args0) = Inr ()
   \<and> reported (trace (fst (main env_stream_breaks args0))) = [APIError ''read'']
   \<and> snd (main env_no_container args0) = Inr ()
   \<and> reported (trace (fst (main env_no_container args0))) = [DockerException ''ImageNotFound'']"
proof -
  have ev: "snd (main env_stream_breaks args0) = Inr ()"
    "reported (trace (fst (main env_stream_breaks args0))) = [APIError ''read'']"
    "snd (main env_no_container args0) = Inr ()"
    "reported (trace (fst (main env_no_container args0))) = [DockerException ''ImageNotFound'']"
    by (simp_all add: env_stream_breaks_def env_no_container_def run_defs,
        (simp_all add: Let_def run_defs)?)
  have c: "boto3_client env_stream_breaks = None"
    by (simp add: env_stream_breaks_def env0_def)
  obtain w r where h: "main env_stream_breaks args0 = (w, r)" by force
  from main_returns [OF c h] have "r = Inr ()" by blast
  with c h ev show ?thesis by blast
qed

text \<open>
  C9, as stated, fails: in the run \<open>env_double_fault\<close> the exception of the sink call
  is replaced by the exception of \<^verbatim>\<open>container.stop()\<close>, and only the latter is
  logged.
\<close>

theorem superseded_error_not_logged:
  "snd (main env_double_fault args0) = Inr ()
   \<and> map snd (put_calls (trace (fst (main env_double_fault args0))))
       = [PutRaises (OtherException ''EndpointConnectionError'')]
   \<and> cleanup_calls (trace (fst (main env_double_fault args0)))
       = [ContainerStop ''c1'' (Some (APIError ''stop''))]
   \<and> reported (trace (fst (main env_double_fault args0))) = [APIError ''stop'']"
  by (simp add: env_double_fault_def run_defs, (simp add: Let_def run_defs)?)

subsection \<open>C10\<close>

text \<open>
  C10. Every call of \<^verbatim>\<open>put_log_events\<close> that one call of \<open>push_log_events\<close> makes
  carries the same keyword arguments, and these contain \<^verbatim>\<open>sequenceToken\<close> exactly when
  the cursor is true in Python's sense, that is, neither \<^verbatim>\<open>None\<close> nor the empty
  string; when present it is the cursor. So the first call of a run (cursor
  \<^verbatim>\<open>None\<close>) sends no token, and neither does a call made with an empty token that the
  sink returned: in every run of \<open>main\<close> the first call of the sink carries no token,
  and neither does the call that follows a response with an empty token.
\<close>

theorem push_log_events_sequence_token:
  assumes "push_log_events env room w g s log_events tok = (w', r)"
  shows "map fst (put_calls (trace w'))
           = map fst (put_calls (trace w))
               @ replicate (puts w' - puts w) (kwargs_of g s log_events tok)
         \<and> (log_events = [] \<or> puts w < puts w')
         \<and> (sequenceToken (kwargs_of g s log_events tok) \<noteq> None) = truthy tok
         \<and> (sequenceToken (kwargs_of g s log_events tok) = None
              \<or> sequenceToken (kwargs_of g s log_events tok) = tok)
         \<and> truthy tok = (tok \<noteq> None \<and> tok \<noteq> Some [])
         \<and> (\<forall>env' a w1 r1.
               main env' a = (w1, r1) \<and> put_calls (trace w1) \<noteq> []
               \<longrightarrow> sequenceToken (fst (hd (put_calls (trace w1)))) = None)
         \<and> (\<forall>env' a w1 r1 i.
               main env' a = (w1, r1) \<and> Suc i < length (put_calls (trace w1))
               \<and> snd (put_calls (trace w1) ! i) = PutReturns (Some [])
               \<longrightarrow> sequenceToken (fst (put_calls (trace w1) ! Suc i)) = None)"
proof -
  have one: "map fst (put_calls (trace w'))
           = map fst (put_calls (trace w))
               @ replicate (puts w' - puts w) (kwargs_of g s log_events tok)
         \<and> (log_events = [] \<or> puts w < puts w')
         \<and> (sequenceToken (kwargs_of g s log_events tok) \<noteq> None) = truthy tok
         \<and> (sequenceToken (kwargs_of g s log_events tok) = None
              \<or> sequenceToken (kwargs_of g s log_events tok) = tok)
         \<and> truthy tok = (tok \<noteq> None \<and> tok \<noteq> Some [])"
  proof (cases log_events)
    case Nil
    with assms show ?thesis
      by (cases tok) (auto simp: kwargs_of_def truthy_def)
  next
    case (Cons ev evs)
    from push_put_calls [OF assms [unfolded Cons]] obtain K final where K:
      "put_calls (trace w') =
         put_calls (trace w) @ replicate K (kwargs_of g s log_events tok, throttled) @ final"
      "puts w' = puts w + K + length final"
      "(\<exists>reply. final = [(kwargs_of g s log_events tok, reply)]) \<or> (final = [] \<and> K = Suc room)"
      unfolding Cons by blast
    from K(3) have "map fst (put_calls (trace w'))
                 = map fst (put_calls (trace w))
                     @ replicate (puts w' - puts w) (kwargs_of g s log_events tok)
                \<and> puts w < puts w'"
    proof
      assume "\<exists>reply. final = [(kwargs_of g s log_events tok, reply)]"
      with K(1,2) show ?thesis by (auto simp: replicate_append_same)
    next
      assume "final = [] \<and> K = Suc room"
      with K(1,2) show ?thesis by simp
    qed
    then show ?thesis
      by (cases tok) (auto simp: kwargs_of_def truthy_def)
  qed
  have first: "sequenceToken (fst (hd (put_calls (trace w1)))) = None"
    if "main env' a = (w1, r1) \<and> put_calls (trace w1) \<noteq> []"
    for env' a w1 r1
  proof -
    from that obtain call calls where c: "put_calls (trace w1) = call # calls"
      by (cases "put_calls (trace w1)") auto
    from that main_threaded have "threaded None (put_calls (trace w1))" by blast
    then show ?thesis unfolding c by (cases call) (simp add: truthy_def)
  qed
  have later: "sequenceToken (fst (put_calls (trace w1) ! Suc i)) = None"
    if "main env' a = (w1, r1) \<and> Suc i < length (put_calls (trace w1))
        \<and> snd (put_calls (trace w1) ! i) = PutReturns (Some [])"
    for env' a w1 r1 i
  proof -
    from that main_threaded have "threaded None (put_calls (trace w1))" by blast
    from threaded_pairs [OF this] that show ?thesis by (simp add: truthy_def)
  qed
  from one first later show ?thesis by blast
qed

theorem push_log_events_sequence_token_witness:
  "push_log_events env_empty_token (Suc 0) world0 ''group'' ''stream'' [event0] (Some [])
     = (\<lparr>trace = [PutLogEvents \<lparr>logGroupName = ''group'', logStreamName = ''stream'',
                                logEvents = [event0], sequenceToken = None\<rparr>
                     (PutReturns (Some []))],
         puts = 1, clock_reads = 0\<rparr>, Inr (Some []))
   \<and> map fst (put_calls [PutLogEvents \<lparr>logGroupName = ''group'', logStreamName = ''stream'',
                                     logEvents = [event0], sequenceToken = None\<rparr>
                          (PutReturns (Some []))])
       = replicate 1 (kwargs_of ''group'' ''stream'' [event0] (Some []))
   \<and> sequenceToken (kwargs_of ''group'' ''stream'' [event0] (Some [])) = None
   \<and> map (\<lambda>call. (sequenceToken (fst call), snd call))
        (put_calls (trace (fst (main env30_empty_token args0))))
       = [(None, PutReturns (Some [])), (None, PutReturns (Some [])),
          (None, PutReturns (Some []))]"
proof -
  have h: "push_log_events env_empty_token (Suc 0) world0 ''group'' ''stream'' [event0] (Some [])
     = (\<lparr>trace = [PutLogEvents \<lparr>logGroupName = ''group'', logStreamName = ''stream'',
                                logEvents = [event0], sequenceToken = None\<rparr>
                     (PutReturns (Some []))],
         puts = 1, clock_reads = 0\<rparr>, Inr (Some []))"
    by (simp add: env_empty_token_def run_defs, (simp add: Let_def run_defs)?)
  have ev: "map (\<lambda>call. (sequenceToken (fst call), snd call))
        (put_calls (trace (fst (main env30_empty_token args0))))
       = [(None, PutReturns (Some [])), (None, PutReturns (Some [])),
          (None, PutReturns (Some []))]"
    by (simp add: env30_empty_token_def env30_def run_defs, (simp add: Let_def run_defs)?)
  from push_log_events_sequence_token [OF h, THEN conjunct1]
    push_log_events_sequence_token [OF h, THEN conjunct2, THEN conjunct2, THEN conjunct1]
  have "map fst (put_calls [PutLogEvents \<lparr>logGroupName = ''group'', logStreamName = ''stream'',
                                     logEvents = [event0], sequenceToken = None\<rparr>
                          (PutReturns (Some []))])
       = replicate 1 (kwargs_of ''group'' ''stream'' [event0] (Some []))"
    "sequenceToken (kwargs_of ''group'' ''stream'' [event0] (Some [])) = None"
    by (simp_all add: world0_def truthy_def)
  with h ev show ?thesis by blast
qed

end
